theory Spec2Isabelle
  imports Main "HOL-Library.Word"
begin

section \<open>The vector of src/vector.c\<close>

text \<open>
  The container of \<^verbatim>\<open>vector.c\<close> is embedded function by function. The conventions:

  \<^item> \<^verbatim>\<open>size_t\<close> is a 64-bit unsigned integer: \<open>+\<close>, \<open>-\<close> and \<open>*\<close> wrap around as in C.
  \<^item> An element handle (\<^verbatim>\<open>void *\<close>) is a value of type \<open>'a option\<close>; \<open>None\<close> is
    \<^verbatim>\<open>NULL\<close>. A slot address (\<^verbatim>\<open>void **\<close> into the array) is the slot's index.
  \<^item> The array is the list of its allocated slots. \<^verbatim>\<open>malloc\<close> and \<^verbatim>\<open>realloc\<close> always
    succeed and grant the bytes asked for (the code never tests their result). The byte
    count is the \<^verbatim>\<open>size_t\<close> product \<^verbatim>\<open>cap * sizeof(void*)\<close> of the source, which wraps
    around; a pointer has 8 bytes. A block of \<open>b\<close> bytes has \<open>b div 8\<close> slots, so a
    request that wrapped to 0 bytes grants no slot. Fresh slots have indeterminate content:
    the field \<open>uninit\<close> is that content, and every theorem holds for each choice of it.
  \<^item> A read or write of a slot that is not allocated is undefined behaviour in C. The
    model stops there with \<open>OutOfBounds\<close>. A failed \<^verbatim>\<open>assert\<close> stops with
    \<open>AssertionFailed\<close>.
  \<^item> The destructor callback releases a payload and does not touch the vector. Its calls
    are recorded, in order and with their argument, in the field \<open>destroyed\<close>.
  \<^item> A function with a loop that need not end returns an \<open>option\<close>: \<open>None\<close> is a
    call that never returns.
  \<^item> The handle \<^verbatim>\<open>this\<close> is always a valid vector, so \<^verbatim>\<open>assert(this)\<close> passes.
\<close>

type_synonym size_t = "64 word"

datatype error = AssertionFailed | OutOfBounds

text \<open>
  The fields of \<^verbatim>\<open>struct vector\<close>, in the order of the source. The field \<^verbatim>\<open>destructor\<close>
  of the source is the function \<open>destructor\<close> below. \<open>destroyed\<close> and \<open>uninit\<close> are not
  fields of the source: they are the record of the destructor's calls and the content of
  memory that was allocated and not yet written.
\<close>

record 'a vector =
  copy_constructor :: "'a \<Rightarrow> 'a"
  default_constructor :: "unit \<Rightarrow> 'a option"
  array :: "'a option list"
  size_v :: size_t
  capacity :: size_t
  destroyed :: "'a option list"
  uninit :: "'a option"

definition INITIAL_CAPACITY :: size_t where
  "INITIAL_CAPACITY = 8"

definition GROWTH_FACTOR :: size_t where
  "GROWTH_FACTOR = 2"

text \<open>\<^verbatim>\<open>(this->destructor)(p)\<close>: the call is recorded.\<close>

definition destructor :: "'a vector \<Rightarrow> 'a option \<Rightarrow> 'a vector" where
  "destructor v p = v\<lparr>destroyed := destroyed v @ [p]\<rparr>"

text \<open>\<^verbatim>\<open>element ? (*this->copy_constructor)(element) : NULL\<close>\<close>

definition copy_of :: "'a vector \<Rightarrow> 'a option \<Rightarrow> 'a option" where
  "copy_of v element =
     (case element of None \<Rightarrow> None | Some e \<Rightarrow> Some (copy_constructor v e))"

text \<open>\<^verbatim>\<open>sizeof(void*)\<close>\<close>

definition SIZEOF_VOID_PTR :: size_t where
  "SIZEOF_VOID_PTR = 8"

text \<open>The number of whole slots in a block of \<open>bytes\<close> bytes.\<close>

definition slots_of :: "size_t \<Rightarrow> nat" where
  "slots_of bytes = unat bytes div unat SIZEOF_VOID_PTR"

text \<open>\<^verbatim>\<open>malloc(bytes)\<close>: a block of that many bytes, its content indeterminate.\<close>

definition malloc :: "size_t \<Rightarrow> 'a option \<Rightarrow> 'a option list" where
  "malloc bytes junk = replicate (slots_of bytes) junk"

text \<open>\<^verbatim>\<open>realloc(a, bytes)\<close>: a block of that many bytes; the old slots that fit are
  kept, the new ones are indeterminate.\<close>

definition realloc :: "'a option list \<Rightarrow> size_t \<Rightarrow> 'a option \<Rightarrow> 'a option list" where
  "realloc a bytes junk =
     take (slots_of bytes) a @ replicate (slots_of bytes - length a) junk"

subsection \<open>get_new_capacity\<close>

text \<open>The source:
  \<^verbatim>\<open>
  static size_t get_new_capacity(size_t target) {
      size_t new_capacity = 1;
      while (new_capacity < target) {
          new_capacity *= GROWTH_FACTOR;
      }
      return new_capacity;
  }
  \<close>
\<close>

partial_function (option) get_new_capacity_loop :: "size_t \<Rightarrow> size_t \<Rightarrow> size_t option" where
  "get_new_capacity_loop new_capacity target =
     (if new_capacity < target
      then get_new_capacity_loop (new_capacity * GROWTH_FACTOR) target
      else Some new_capacity)"

declare get_new_capacity_loop.simps [code]

definition get_new_capacity :: "size_t \<Rightarrow> size_t option" where
  "get_new_capacity target = get_new_capacity_loop 1 target"

subsection \<open>vector_create, vector_reserve\<close>

text \<open>\<^verbatim>\<open>for (i = from; i < n; i++) a[i] = NULL;\<close> of \<^verbatim>\<open>vector_create\<close> and
  \<^verbatim>\<open>vector_reserve\<close>.\<close>

function null_fill :: "'a option list \<Rightarrow> size_t \<Rightarrow> size_t \<Rightarrow> error + 'a option list" where
  "null_fill a i n =
     (if i < n
      then (if unat i < length a then null_fill (a[unat i := None]) (i + 1) n
            else Inl OutOfBounds)
      else Inr a)"
  by pat_completeness auto
termination
  apply (relation "measure (\<lambda>(a, i, n). unat n - unat i)")
   apply simp
  apply (simp add: word_less_nat_alt)
  apply unat_arith
  done

text \<open>The source:
  \<^verbatim>\<open>
  vector * v = malloc(sizeof(vector));
  v->copy_constructor = copy_constructor;
  v->destructor = destructor;
  v->default_constructor = default_constructor;
  v->size = 0;
  v->capacity = INITIAL_CAPACITY;
  v->array = malloc(INITIAL_CAPACITY * sizeof(void*));
  for (size_t i = 0; i < INITIAL_CAPACITY; i++)
      v->array[i] = NULL;
  return v;
  \<close>
\<close>

definition vector_create ::
  "('a \<Rightarrow> 'a) \<Rightarrow> (unit \<Rightarrow> 'a option) \<Rightarrow> 'a option \<Rightarrow> error + 'a vector" where
  "vector_create copy dflt junk =
     (case null_fill (malloc (INITIAL_CAPACITY * SIZEOF_VOID_PTR) junk) 0 INITIAL_CAPACITY of
        Inl e \<Rightarrow> Inl e
      | Inr a \<Rightarrow>
          Inr \<lparr>copy_constructor = copy, default_constructor = dflt, array = a,
               size_v = 0, capacity = INITIAL_CAPACITY, destroyed = [], uninit = junk\<rparr>)"

definition vector_size :: "'a vector \<Rightarrow> size_t" where
  "vector_size v = size_v v"

definition vector_capacity :: "'a vector \<Rightarrow> size_t" where
  "vector_capacity v = capacity v"

text \<open>The source:
  \<^verbatim>\<open>
  void vector_reserve(vector *this, size_t n) {
      assert(this);
      if( n <= this->capacity) return;
      size_t cap = get_new_capacity(n);
      this->array = realloc(this->array, cap * sizeof(void*));
      for (size_t i = this->capacity; i < cap; i++) {
          this->array[i] = NULL;
      }
      this->capacity = cap;
  }
  \<close>
\<close>

definition vector_reserve :: "'a vector \<Rightarrow> size_t \<Rightarrow> (error + 'a vector) option" where
  "vector_reserve v n =
     (if n \<le> capacity v then Some (Inr v)
      else
        (case get_new_capacity n of
           None \<Rightarrow> None
         | Some cap \<Rightarrow>
             (case null_fill (realloc (array v) (cap * SIZEOF_VOID_PTR) (uninit v))
                     (capacity v) cap of
                Inl e \<Rightarrow> Some (Inl e)
              | Inr a \<Rightarrow> Some (Inr (v\<lparr>array := a, capacity := cap\<rparr>)))))"

subsection \<open>vector_push_back, vector_resize\<close>

text \<open>The source:
  \<^verbatim>\<open>
  void vector_push_back(vector *this, void *element) {
      assert(this);
      if(this->size == this->capacity) {
          vector_reserve(this, this->capacity+1);
      }
      this->array[this->size++] = element ? (*this->copy_constructor)(element) : NULL;
  }
  \<close>
\<close>

definition vector_push_back :: "'a vector \<Rightarrow> 'a option \<Rightarrow> (error + 'a vector) option" where
  "vector_push_back v element =
     (case (if size_v v = capacity v then vector_reserve v (capacity v + 1)
            else Some (Inr v)) of
        None \<Rightarrow> None
      | Some (Inl e) \<Rightarrow> Some (Inl e)
      | Some (Inr v1) \<Rightarrow>
          (if unat (size_v v1) < length (array v1)
           then Some (Inr (v1\<lparr>array := (array v1)[unat (size_v v1) := copy_of v1 element],
                               size_v := size_v v1 + 1\<rparr>))
           else Some (Inl OutOfBounds)))"

text \<open>The source:
  \<^verbatim>\<open>
  void vector_resize(vector *this, size_t n) {
      assert(this);
      if (n > this->capacity) {
          vector_reserve(this, n);
      }
      if (n > this->size) {
          while (this->size < n)
          {
             void* ele = this->default_constructor();
             vector_push_back(this, ele);
             (this->destructor)(ele);
          }
      } else if (n < this->size) {
          for (size_t i = n; i < this->size; i++) {
                  (this->destructor)(this->array[i]);
                  this->array[i] = NULL;
          }
          this->size = n;
      }
  }
  \<close>
\<close>

text \<open>The \<^verbatim>\<open>while (this->size < n)\<close> loop of \<^verbatim>\<open>vector_resize\<close>.\<close>

partial_function (option) resize_grow ::
  "'a vector \<Rightarrow> size_t \<Rightarrow> (error + 'a vector) option" where
  "resize_grow v n =
     (if size_v v < n
      then (case vector_push_back v (default_constructor v ()) of
              None \<Rightarrow> None
            | Some (Inl e) \<Rightarrow> Some (Inl e)
            | Some (Inr v1) \<Rightarrow> resize_grow (destructor v1 (default_constructor v ())) n)
      else Some (Inr v))"

declare resize_grow.simps [code]

text \<open>The \<^verbatim>\<open>for (i = n; i < this->size; i++)\<close> loop of \<^verbatim>\<open>vector_resize\<close>.\<close>

function resize_shrink :: "'a vector \<Rightarrow> size_t \<Rightarrow> error + 'a vector" where
  "resize_shrink v i =
     (if i < size_v v
      then (if unat i < length (array v)
            then resize_shrink
                   ((destructor v (array v ! unat i))\<lparr>array := (array v)[unat i := None]\<rparr>)
                   (i + 1)
            else Inl OutOfBounds)
      else Inr v)"
  by pat_completeness auto
termination
  apply (relation "measure (\<lambda>(v, i). unat (size_v v) - unat i)")
   apply simp
  apply (simp add: word_less_nat_alt destructor_def)
  apply unat_arith
  done

definition vector_resize :: "'a vector \<Rightarrow> size_t \<Rightarrow> (error + 'a vector) option" where
  "vector_resize v n =
     (case (if n > capacity v then vector_reserve v n else Some (Inr v)) of
        None \<Rightarrow> None
      | Some (Inl e) \<Rightarrow> Some (Inl e)
      | Some (Inr v1) \<Rightarrow>
          (if n > size_v v1 then resize_grow v1 n
           else if n < size_v v1
           then (case resize_shrink v1 n of
                   Inl e \<Rightarrow> Some (Inl e)
                 | Inr v2 \<Rightarrow> Some (Inr (v2\<lparr>size_v := n\<rparr>)))
           else Some (Inr v1)))"

subsection \<open>vector_set, vector_get, vector_back, vector_pop_back\<close>

text \<open>The source:
  \<^verbatim>\<open>
  void vector_set(vector *this, size_t position, void *element) {
      assert(this);
      if (position > this->size)
      {
          return;
      } if (position < this->size)
      {
         (this->destructor)(this->array[position]);
         this->array[position] = element ? (*this->copy_constructor)(element) : NULL;
      } else
      {
         if (position == this->capacity)
         {
             // need to realloc
             vector_resize(this, position);
         }
          this->array[position] = element ? (*this->copy_constructor)(element) : NULL;
          this->size++;
      }
  }
  \<close>
\<close>

definition vector_set ::
  "'a vector \<Rightarrow> size_t \<Rightarrow> 'a option \<Rightarrow> (error + 'a vector) option" where
  "vector_set v position element =
     (if position > size_v v then Some (Inr v)
      else if position < size_v v
      then (if unat position < length (array v)
            then Some (Inr ((destructor v (array v ! unat position))
                     \<lparr>array := (array v)[unat position := copy_of v element]\<rparr>))
            else Some (Inl OutOfBounds))
      else
        (case (if position = capacity v then vector_resize v position
               else Some (Inr v)) of
           None \<Rightarrow> None
         | Some (Inl e) \<Rightarrow> Some (Inl e)
         | Some (Inr v1) \<Rightarrow>
             (if unat position < length (array v1)
              then Some (Inr (v1\<lparr>array := (array v1)[unat position := copy_of v1 element],
                                  size_v := size_v v1 + 1\<rparr>))
              else Some (Inl OutOfBounds))))"

text \<open>The source:
  \<^verbatim>\<open>
  void *vector_get(vector *this, size_t position) {
      assert(this);
      assert(position < this->size);
      return this->array[position];
  }
  \<close>
\<close>

definition vector_get :: "'a vector \<Rightarrow> size_t \<Rightarrow> error + 'a option" where
  "vector_get v position =
     (if position < size_v v
      then (if unat position < length (array v) then Inr (array v ! unat position)
            else Inl OutOfBounds)
      else Inl AssertionFailed)"

text \<open>\<^verbatim>\<open>return this->array + this->size - 1;\<close>: the address of a slot, nothing is read.\<close>

definition vector_back :: "'a vector \<Rightarrow> size_t" where
  "vector_back v = size_v v - 1"

text \<open>The source:
  \<^verbatim>\<open>
  void vector_pop_back(vector *this) {
      assert(this);
      (this->destructor)(this->array[--this->size]);
      this->array[this->size] = NULL;
  }
  \<close>
\<close>

definition vector_pop_back :: "'a vector \<Rightarrow> error + 'a vector" where
  "vector_pop_back v =
     (let v1 = v\<lparr>size_v := size_v v - 1\<rparr> in
      if unat (size_v v1) < length (array v1)
      then Inr ((destructor v1 (array v1 ! unat (size_v v1)))
                  \<lparr>array := (array v1)[unat (size_v v1) := None]\<rparr>)
      else Inl OutOfBounds)"

subsection \<open>vector_insert, vector_erase, vector_clear\<close>

text \<open>The source:
  \<^verbatim>\<open>
  void vector_insert(vector *this, size_t position, void *element) {
      assert(this);
      if(this->size == this->capacity) {
          vector_reserve(this, this->capacity + 1);
      }
      for (size_t i = this->size; i >= position; i--) {
          this->array[i] = this->array[i-1];
      }
      this->array[position] = element ? (*this->copy_constructor)(element) : NULL;
      this->size++;
  }
  \<close>
\<close>

text \<open>The \<^verbatim>\<open>for (i = this->size; i >= position; i--)\<close> loop of \<^verbatim>\<open>vector_insert\<close>;
  \<open>i - 1\<close> wraps at \<open>0\<close>.\<close>

partial_function (option) insert_loop ::
  "'a vector \<Rightarrow> size_t \<Rightarrow> size_t \<Rightarrow> (error + 'a vector) option" where
  "insert_loop v position i =
     (if i \<ge> position
      then (if unat (i - 1) < length (array v) \<and> unat i < length (array v)
            then insert_loop (v\<lparr>array := (array v)[unat i := array v ! unat (i - 1)]\<rparr>)
                   position (i - 1)
            else Some (Inl OutOfBounds))
      else Some (Inr v))"

declare insert_loop.simps [code]

definition vector_insert ::
  "'a vector \<Rightarrow> size_t \<Rightarrow> 'a option \<Rightarrow> (error + 'a vector) option" where
  "vector_insert v position element =
     (case (if size_v v = capacity v then vector_reserve v (capacity v + 1)
            else Some (Inr v)) of
        None \<Rightarrow> None
      | Some (Inl e) \<Rightarrow> Some (Inl e)
      | Some (Inr v1) \<Rightarrow>
          (case insert_loop v1 position (size_v v1) of
             None \<Rightarrow> None
           | Some (Inl e) \<Rightarrow> Some (Inl e)
           | Some (Inr v2) \<Rightarrow>
               (if unat position < length (array v2)
                then Some (Inr (v2\<lparr>array := (array v2)[unat position := copy_of v2 element],
                                    size_v := size_v v2 + 1\<rparr>))
                else Some (Inl OutOfBounds))))"

text \<open>The source:
  \<^verbatim>\<open>
  void vector_erase(vector *this, size_t position) {
      assert(this);
      if (position >= this->size)
      {
          return;
      }
      (this->destructor)(this->array[position]);
      for (size_t i = position; i < this->size; i++)
      {
          this->array[i] = this->array[i+1];
      }
      this->size--;
  }
  \<close>
\<close>

text \<open>The \<^verbatim>\<open>for (i = position; i < this->size; i++)\<close> loop of \<^verbatim>\<open>vector_erase\<close>.\<close>

function erase_loop :: "'a vector \<Rightarrow> size_t \<Rightarrow> error + 'a vector" where
  "erase_loop v i =
     (if i < size_v v
      then (if unat (i + 1) < length (array v) \<and> unat i < length (array v)
            then erase_loop (v\<lparr>array := (array v)[unat i := array v ! unat (i + 1)]\<rparr>) (i + 1)
            else Inl OutOfBounds)
      else Inr v)"
  by pat_completeness auto
termination
  apply (relation "measure (\<lambda>(v, i). unat (size_v v) - unat i)")
   apply simp
  apply (simp add: word_less_nat_alt)
  apply unat_arith
  done

definition vector_erase :: "'a vector \<Rightarrow> size_t \<Rightarrow> error + 'a vector" where
  "vector_erase v position =
     (if position \<ge> size_v v then Inr v
      else if unat position < length (array v)
      then (case erase_loop (destructor v (array v ! unat position)) position of
              Inl e \<Rightarrow> Inl e
            | Inr v1 \<Rightarrow> Inr (v1\<lparr>size_v := size_v v1 - 1\<rparr>))
      else Inl OutOfBounds)"

text \<open>The source:
  \<^verbatim>\<open>
  void vector_clear(vector *this) {
      assert(this);
      for (size_t i = 0; i < this->size; i++)
      {
          if (this->array[i])
          {
              (this->destructor)(this->array[i]);
              this->array[i] = NULL;
          }
      }
      this->size = 0;
  }
  \<close>
\<close>

text \<open>The loop of \<^verbatim>\<open>vector_clear\<close>.\<close>

function clear_loop :: "'a vector \<Rightarrow> size_t \<Rightarrow> error + 'a vector" where
  "clear_loop v i =
     (if i < size_v v
      then (if unat i < length (array v)
            then (case array v ! unat i of
                    None \<Rightarrow> clear_loop v (i + 1)
                  | Some p \<Rightarrow>
                      clear_loop ((destructor v (Some p))\<lparr>array := (array v)[unat i := None]\<rparr>)
                        (i + 1))
            else Inl OutOfBounds)
      else Inr v)"
  by pat_completeness auto
termination
  apply (relation "measure (\<lambda>(v, i). unat (size_v v) - unat i)")
    apply simp
   apply (simp add: word_less_nat_alt)
   apply unat_arith
  apply (simp add: word_less_nat_alt destructor_def)
  apply unat_arith
  done

definition vector_clear :: "'a vector \<Rightarrow> error + 'a vector" where
  "vector_clear v =
     (case clear_loop v 0 of Inl e \<Rightarrow> Inl e | Inr v1 \<Rightarrow> Inr (v1\<lparr>size_v := 0\<rparr>))"

declare null_fill.simps [simp del]
declare resize_shrink.simps [simp del]
declare erase_loop.simps [simp del]
declare clear_loop.simps [simp del]

subsection \<open>The invariant of the representation\<close>

text \<open>The capacity is one of \<open>2 ^ 0, \<dots>, 2 ^ 63\<close>, the powers of two a \<^verbatim>\<open>size_t\<close> holds.\<close>

definition power_of_two :: "size_t \<Rightarrow> bool" where
  "power_of_two c = (\<exists>k\<in>set [0..<64]. unat c = 2 ^ k)"

text \<open>The capacity is a power of two, at least the size, and the number of slots that
  are allocated.\<close>

definition vector_inv :: "'a vector \<Rightarrow> bool" where
  "vector_inv v =
     (power_of_two (capacity v) \<and> size_v v \<le> capacity v \<and>
      length (array v) = unat (capacity v))"

text \<open>The stored elements: the slots at the indices \<open>[0, size)\<close>.\<close>

definition elements :: "'a vector \<Rightarrow> 'a option list" where
  "elements v = take (unat (size_v v)) (array v)"

subsection \<open>Sequences of operations\<close>

text \<open>A client's calls on one vector, run in order; the run stops at the first call that
  fails or does not return.\<close>

datatype 'a operation =
    PushBack "'a option"
  | PopBack
  | Insert size_t "'a option"
  | Erase size_t
  | Set size_t "'a option"
  | Resize size_t
  | Reserve size_t
  | Clear

fun apply_op :: "'a vector \<Rightarrow> 'a operation \<Rightarrow> (error + 'a vector) option" where
  "apply_op v (PushBack x) = vector_push_back v x"
| "apply_op v PopBack = Some (vector_pop_back v)"
| "apply_op v (Insert p x) = vector_insert v p x"
| "apply_op v (Erase p) = Some (vector_erase v p)"
| "apply_op v (Set p x) = vector_set v p x"
| "apply_op v (Resize n) = vector_resize v n"
| "apply_op v (Reserve n) = vector_reserve v n"
| "apply_op v Clear = Some (vector_clear v)"

fun run :: "'a vector \<Rightarrow> 'a operation list \<Rightarrow> (error + 'a vector) option" where
  "run v [] = Some (Inr v)"
| "run v (op # ops) =
     (case apply_op v op of
        None \<Rightarrow> None
      | Some (Inl e) \<Rightarrow> Some (Inl e)
      | Some (Inr v1) \<Rightarrow> run v1 ops)"

text \<open>The same on a vector fresh from \<^verbatim>\<open>vector_create\<close>.\<close>

definition run_new ::
  "('a \<Rightarrow> 'a) \<Rightarrow> (unit \<Rightarrow> 'a option) \<Rightarrow> 'a option \<Rightarrow> 'a operation list \<Rightarrow>
   (error + 'a vector) option" where
  "run_new copy dflt junk ops =
     (case vector_create copy dflt junk of
        Inl e \<Rightarrow> Some (Inl e)
      | Inr v \<Rightarrow> run v ops)"

text \<open>What a client sees of a vector: the slots, the size, the capacity and the calls of
  the destructor so far. The two callbacks are functions and are left out, so that an
  observation can be compared by computation.\<close>

definition observe ::
  "'a vector \<Rightarrow> 'a option list \<times> size_t \<times> size_t \<times> 'a option list" where
  "observe v = (array v, size_v v, capacity v, destroyed v)"

definition result_of ::
  "error + 'a vector \<Rightarrow> error + 'a option list \<times> size_t \<times> size_t \<times> 'a option list" where
  "result_of r = (case r of Inl e \<Rightarrow> Inl e | Inr v \<Rightarrow> Inr (observe v))"

definition outcome ::
  "(error + 'a vector) option \<Rightarrow>
   (error + 'a option list \<times> size_t \<times> size_t \<times> 'a option list) option" where
  "outcome r = (case r of None \<Rightarrow> None | Some x \<Rightarrow> Some (result_of x))"

section \<open>Arithmetic of capacities\<close>

lemma gnc_loop_Some_nonzero:
  assumes "get_new_capacity_loop c t = Some y"
  shows "0 < t \<longrightarrow> c \<noteq> 0"
  using assms
  by (rule get_new_capacity_loop.raw_induct[where P = "\<lambda>c t y. 0 < t \<longrightarrow> c \<noteq> 0", rotated])
     (force split: if_splits)

lemma gnc_loop_zero: "0 < t \<Longrightarrow> get_new_capacity_loop 0 t = None"
  using gnc_loop_Some_nonzero[of 0 t] by (cases "get_new_capacity_loop 0 t") auto

lemma unat_pow2: "k < 64 \<Longrightarrow> unat ((2::size_t) ^ k) = 2 ^ k"
proof -
  assume k: "k < 64"
  have "(2::size_t) ^ k = of_nat (2 ^ k)" by simp
  then have "unat ((2::size_t) ^ k) = 2 ^ k mod 2 ^ 64"
    by (simp only: unat_of_nat) simp
  moreover have "(2::nat) ^ k < 2 ^ 64"
    using k by (intro power_strict_increasing) auto
  ultimately show ?thesis by simp
qed

lemma gnc_loop_pow:
  assumes "k < 64" "j \<le> k" "unat t \<le> 2 ^ k" "\<forall>i<k. 2 ^ i < unat t"
  shows "get_new_capacity_loop (2 ^ j) t = Some (2 ^ k)"
  using assms
proof (induction "k - j" arbitrary: j)
  case 0
  then have "j = k" by simp
  moreover have "\<not> (2::size_t) ^ k < t"
    using 0 by (simp add: word_less_nat_alt unat_pow2)
  ultimately show ?case by (subst get_new_capacity_loop.simps) simp
next
  case (Suc d)
  then have jk: "j < k" by simp
  then have lt: "(2::size_t) ^ j < t"
    using Suc.prems by (simp add: word_less_nat_alt unat_pow2)
  have "get_new_capacity_loop (2 ^ Suc j) t = Some (2 ^ k)"
    using Suc jk by (intro Suc.hyps(1)) auto
  then show ?case
    using lt by (subst get_new_capacity_loop.simps) (simp add: GROWTH_FACTOR_def mult.commute)
qed

lemma pow2_cover:
  assumes "n \<le> 2 ^ m"
  shows "\<exists>k\<le>m. n \<le> 2 ^ k \<and> (\<forall>i<k. 2 ^ i < (n::nat))"
proof -
  define k where "k = (LEAST k. n \<le> 2 ^ k)"
  have a: "n \<le> 2 ^ k" unfolding k_def using assms by (rule LeastI)
  have b: "k \<le> m" unfolding k_def using assms by (rule Least_le)
  have c: "\<forall>i<k. 2 ^ i < n"
  proof (intro allI impI)
    fix i assume "i < k"
    then have "\<not> n \<le> 2 ^ i" unfolding k_def by (rule not_less_Least)
    then show "2 ^ i < n" by simp
  qed
  from a b c show ?thesis by blast
qed

lemma get_new_capacity_Some:
  assumes "m < 64" "unat n \<le> 2 ^ m"
  shows "\<exists>k\<le>m. get_new_capacity n = Some (2 ^ k) \<and> unat n \<le> 2 ^ k \<and> (\<forall>i<k. 2 ^ i < unat n)"
proof -
  from pow2_cover[OF assms(2)] obtain k where
    k: "k \<le> m" "unat n \<le> 2 ^ k" "\<forall>i<k. 2 ^ i < unat n"
    by blast
  then have "get_new_capacity_loop (2 ^ 0) n = Some (2 ^ k)"
    using assms(1) by (intro gnc_loop_pow) auto
  then show ?thesis using k by (auto simp: get_new_capacity_def intro!: exI[of _ k])
qed

lemma gnc_loop_diverges:
  assumes "2 ^ 63 < unat t" "j \<le> 64"
  shows "get_new_capacity_loop (2 ^ j) t = None"
  using assms
proof (induction "64 - j" arbitrary: j)
  case 0
  then have j: "j = 64" by simp
  have t: "0 < t" using 0 by (simp add: word_less_nat_alt)
  have z: "(2::size_t) ^ 64 = 0" using word_pow_0[where 'a=64] by simp
  show ?case unfolding j z using t by (rule gnc_loop_zero)
next
  case (Suc d)
  then have j: "j < 64" by simp
  then have "(2::nat) ^ j \<le> 2 ^ 63" by (intro power_increasing) auto
  then have lt: "(2::size_t) ^ j < t"
    using Suc.prems j by (simp add: word_less_nat_alt unat_pow2)
  have "get_new_capacity_loop (2 ^ Suc j) t = None"
    using Suc j by (intro Suc.hyps(1)) auto
  then show ?case
    using lt by (subst get_new_capacity_loop.simps) (simp add: GROWTH_FACTOR_def mult.commute)
qed

lemma get_new_capacity_None: "2 ^ 63 < unat n \<Longrightarrow> get_new_capacity n = None"
  using gnc_loop_diverges[of n 0] by (simp add: get_new_capacity_def)

lemma unat_Suc_less: "(i::size_t) < n \<Longrightarrow> unat (i + 1) = Suc (unat i)"
  by unat_arith

lemma null_fill_eq:
  "unat n \<le> length a \<Longrightarrow> i \<le> n \<Longrightarrow>
   null_fill a i n = Inr (take (unat i) a @ replicate (unat n - unat i) None @ drop (unat n) a)"
proof (induction a i n rule: null_fill.induct)
  case (1 a i n)
  show ?case
  proof (cases "i < n")
    case False
    with 1 have "i = n" by simp
    then show ?thesis by (subst null_fill.simps) simp
  next
    case True
    then have lt: "unat i < unat n" by (simp add: word_less_nat_alt)
    have s: "unat (i + 1) = Suc (unat i)" using True by (rule unat_Suc_less)
    have le: "i + 1 \<le> n" using lt s by (simp add: word_le_nat_alt)
    have len: "unat i < length a" using lt 1(2) by simp
    have ih: "null_fill (a[unat i := None]) (i + 1) n =
              Inr (take (unat (i + 1)) (a[unat i := None]) @
                   replicate (unat n - unat (i + 1)) None @ drop (unat n) (a[unat i := None]))"
      using 1(1)[OF True len] 1(2) le by simp
    have t: "take (Suc (unat i)) (a[unat i := None]) = take (unat i) a @ [None]"
      using len by (simp add: take_Suc_conv_app_nth)
    have d: "drop (unat n) (a[unat i := None]) = drop (unat n) a"
      using lt by simp
    have r: "replicate (unat n - unat i) (None::'a option) = None # replicate (unat n - Suc (unat i)) None"
      using lt by (cases "unat n - unat i") (auto simp: Suc_diff_Suc)
    show ?thesis
      using True len by (subst null_fill.simps) (simp add: ih s t d r)
  qed
qed

lemma vector_create_eq:
  "vector_create copy dflt junk =
     Inr \<lparr>copy_constructor = copy, default_constructor = dflt, array = replicate 8 None,
          size_v = 0, capacity = 8, destroyed = [], uninit = junk\<rparr>"
  by (simp add: vector_create_def INITIAL_CAPACITY_def SIZEOF_VOID_PTR_def malloc_def
      slots_of_def null_fill_eq)

lemma power_of_two_iff: "power_of_two c \<longleftrightarrow> (\<exists>k<64. c = 2 ^ k)"
proof
  assume "power_of_two c"
  then obtain k where k: "k < 64" "unat c = 2 ^ k" by (auto simp: power_of_two_def)
  then have "unat c = unat ((2::size_t) ^ k)" by (simp add: unat_pow2)
  then have "c = 2 ^ k" by (simp only: word_unat_eq_iff)
  with k show "\<exists>k<64. c = 2 ^ k" by blast
next
  assume "\<exists>k<64. c = 2 ^ k"
  then show "power_of_two c" by (auto simp: power_of_two_def unat_pow2)
qed

lemma vector_reserve_noop: "n \<le> capacity v \<Longrightarrow> vector_reserve v n = Some (Inr v)"
  by (simp add: vector_reserve_def)

lemma slots_of_pow2:
  assumes "k \<le> 60"
  shows "slots_of (2 ^ k * SIZEOF_VOID_PTR) = 2 ^ k"
proof -
  have "(2::size_t) ^ k * SIZEOF_VOID_PTR = 2 ^ (k + 3)"
    by (simp add: SIZEOF_VOID_PTR_def power_add)
  moreover have "unat ((2::size_t) ^ (k + 3)) = 2 ^ (k + 3)"
    using assms by (intro unat_pow2) simp
  ultimately show ?thesis
    by (simp add: slots_of_def SIZEOF_VOID_PTR_def power_add)
qed

lemma slots_of_wrap:
  assumes "60 < k"
  shows "slots_of (2 ^ k * SIZEOF_VOID_PTR) = 0"
proof -
  obtain j where j: "k = 61 + j" using assms less_iff_Suc_add[of 60 k] by auto
  have z: "(2::size_t) ^ 64 = 0" using word_pow_0[where 'a=64] by simp
  have "(2::size_t) ^ k * SIZEOF_VOID_PTR = 2 ^ 64 * 2 ^ j"
    unfolding j by (simp add: SIZEOF_VOID_PTR_def power_add)
  then have "(2::size_t) ^ k * SIZEOF_VOID_PTR = 0" unfolding z by simp
  then show ?thesis by (simp add: slots_of_def)
qed

lemma vector_reserve_grow:
  assumes len: "length (array v) = unat (capacity v)" and n: "capacity v < n" "unat n \<le> 2 ^ 60"
  shows "\<exists>k\<le>60. unat n \<le> 2 ^ k \<and> (\<forall>i<k. 2 ^ i < unat n) \<and>
           vector_reserve v n =
             Some (Inr (v\<lparr>array := array v @ replicate (2 ^ k - unat (capacity v)) None,
                           capacity := 2 ^ k\<rparr>))"
proof -
  from get_new_capacity_Some[OF _ n(2)] obtain k where
    k: "k \<le> 60" "get_new_capacity n = Some (2 ^ k)" "unat n \<le> 2 ^ k" "\<forall>i<k. 2 ^ i < unat n"
    by auto
  let ?cap = "(2::size_t) ^ k"
  have ucap: "unat ?cap = 2 ^ k" using k(1) by (intro unat_pow2) simp
  have sl: "slots_of (?cap * SIZEOF_VOID_PTR) = 2 ^ k" using k(1) by (rule slots_of_pow2)
  have lt: "unat (capacity v) < 2 ^ k" using n(1) k(3) by (simp add: word_less_nat_alt)
  have re: "realloc (array v) (?cap * SIZEOF_VOID_PTR) (uninit v) =
            array v @ replicate (2 ^ k - unat (capacity v)) (uninit v)"
    using lt len by (simp add: realloc_def sl)
  have le: "capacity v \<le> ?cap" using lt by (simp add: word_le_nat_alt ucap)
  have "null_fill (realloc (array v) (?cap * SIZEOF_VOID_PTR) (uninit v)) (capacity v) ?cap =
        Inr (array v @ replicate (2 ^ k - unat (capacity v)) None)"
    using lt len le by (subst null_fill_eq) (simp_all add: re ucap)
  then have "vector_reserve v n =
             Some (Inr (v\<lparr>array := array v @ replicate (2 ^ k - unat (capacity v)) None,
                           capacity := 2 ^ k\<rparr>))"
    using n(1) k(2) by (simp add: vector_reserve_def not_le[symmetric])
  with k show ?thesis by blast
qed

text \<open>Between \<open>2 ^ 60\<close> and \<open>2 ^ 63\<close> the new capacity is found, and the byte count of the
  request wraps to 0: no slot is granted, and the loop that clears the new slots writes
  outside the block.\<close>

lemma vector_reserve_wrap:
  assumes n: "capacity v < n" "2 ^ 60 < unat n" "unat n \<le> 2 ^ 63"
  shows "vector_reserve v n = Some (Inl OutOfBounds)"
proof -
  from get_new_capacity_Some[OF _ n(3)] obtain k where
    k: "k \<le> 63" "get_new_capacity n = Some (2 ^ k)" "unat n \<le> 2 ^ k"
    by auto
  let ?cap = "(2::size_t) ^ k"
  have ucap: "unat ?cap = 2 ^ k" using k(1) by (intro unat_pow2) simp
  have "(2::nat) ^ 60 < 2 ^ k" using n(2) k(3) by simp
  then have "60 < k" by (rule power_less_imp_less_exp[rotated]) simp
  then have sl: "slots_of (?cap * SIZEOF_VOID_PTR) = 0" by (rule slots_of_wrap)
  have re: "realloc (array v) (?cap * SIZEOF_VOID_PTR) (uninit v) = []"
    by (simp add: realloc_def sl)
  have lt: "capacity v < ?cap"
    using n(1) k(3) by (simp add: word_less_nat_alt ucap)
  have "null_fill ([] :: 'a option list) (capacity v) ?cap = Inl OutOfBounds"
    using lt by (subst null_fill.simps) simp
  then show ?thesis
    using n(1) k(2) by (simp add: vector_reserve_def not_le[symmetric] re)
qed

section \<open>The operations on a vector that satisfies the invariant\<close>

lemma unat_minus_1_size_t: "unat (- 1 :: size_t) = 18446744073709551615"
  by (simp add: unsigned_minus_1_eq_mask mask_eq_exp_minus_1)

lemma copy_of_update [simp]:
  "copy_of (v\<lparr>array := a\<rparr>) x = copy_of v x"
  "copy_of (v\<lparr>size_v := n\<rparr>) x = copy_of v x"
  "copy_of (v\<lparr>capacity := c\<rparr>) x = copy_of v x"
  "copy_of (v\<lparr>destroyed := d\<rparr>) x = copy_of v x"
  by (cases x; simp add: copy_of_def)+

lemma copy_of_cong: "copy_constructor v' = copy_constructor v \<Longrightarrow> copy_of v' x = copy_of v x"
  by (cases x) (simp_all add: copy_of_def)

lemma vector_inv_capacity:
  "vector_inv v \<Longrightarrow> \<exists>k<64. capacity v = 2 ^ k \<and> unat (capacity v) = 2 ^ k"
  by (auto simp: vector_inv_def power_of_two_iff unat_pow2)

lemma pow2_succ_cover:
  assumes "(2::nat) ^ k + 1 \<le> 2 ^ k'" "\<forall>i<k'. (2::nat) ^ i < 2 ^ k + 1"
  shows "k' = Suc k"
proof -
  have "k < k'"
  proof (rule ccontr)
    assume "\<not> k < k'"
    then have "(2::nat) ^ k' \<le> 2 ^ k" by (intro power_increasing) auto
    with assms(1) show False by simp
  qed
  moreover have "\<not> Suc k < k'"
  proof
    assume "Suc k < k'"
    with assms(2) have "(2::nat) ^ Suc k < 2 ^ k + 1" by blast
    then show False by simp
  qed
  ultimately show ?thesis by simp
qed

lemma vector_inv_size_Suc:
  assumes "vector_inv v"
  shows "unat (size_v v + 1) = Suc (unat (size_v v))"
proof -
  from vector_inv_capacity[OF assms] obtain k where
    k: "k < 64" "unat (capacity v) = 2 ^ k" by blast
  have "(2::nat) ^ k \<le> 2 ^ 63" using k(1) by (intro power_increasing) auto
  moreover have "unat (size_v v) \<le> unat (capacity v)"
    using assms by (simp add: vector_inv_def word_le_nat_alt)
  ultimately have "unat (size_v v) \<le> 2 ^ 63" using k(2) by simp
  then show ?thesis by (simp add: unat_word_ariths)
qed

lemma vector_reserve_full:
  assumes inv: "vector_inv v" and k: "k < 60" "capacity v = 2 ^ k"
  shows "vector_reserve v (capacity v + 1) =
           Some (Inr (v\<lparr>array := array v @ replicate (2 ^ k) None, capacity := 2 ^ Suc k\<rparr>))"
proof -
  have uc: "unat (capacity v) = 2 ^ k" using k by (simp add: unat_pow2)
  have p: "(2::nat) ^ k < 2 ^ 60" using k(1) by (intro power_strict_increasing) auto
  then have u1: "unat (capacity v + 1) = 2 ^ k + 1"
    using uc by (simp add: unat_word_ariths)
  have lt: "capacity v < capacity v + 1" using u1 uc by (simp add: word_less_nat_alt)
  have le: "unat (capacity v + 1) \<le> 2 ^ 60" using u1 p by simp
  have len: "length (array v) = unat (capacity v)" using inv by (simp add: vector_inv_def)
  from vector_reserve_grow[OF len lt le] obtain k' where
    k': "k' \<le> 60" "unat (capacity v + 1) \<le> 2 ^ k'" "\<forall>i<k'. 2 ^ i < unat (capacity v + 1)"
    and r: "vector_reserve v (capacity v + 1) =
             Some (Inr (v\<lparr>array := array v @ replicate (2 ^ k' - unat (capacity v)) None,
                           capacity := 2 ^ k'\<rparr>))"
    by blast
  have "k' = Suc k" using k'(2,3) unfolding u1 by (rule pow2_succ_cover)
  then show ?thesis using r uc by simp
qed

lemma vector_push_back_room:
  assumes "size_v v < capacity v" "length (array v) = unat (capacity v)"
  shows "vector_push_back v x =
           Some (Inr (v\<lparr>array := (array v)[unat (size_v v) := copy_of v x],
                         size_v := size_v v + 1\<rparr>))"
  using assms by (auto simp: vector_push_back_def word_less_nat_alt)

lemma vector_push_back_full:
  assumes inv: "vector_inv v" and full: "size_v v = capacity v" and k: "k < 60" "capacity v = 2 ^ k"
  shows "vector_push_back v x =
           Some (Inr (v\<lparr>array := (array v @ replicate (2 ^ k) None)[unat (size_v v) := copy_of v x],
                         capacity := 2 ^ Suc k, size_v := size_v v + 1\<rparr>))"
proof -
  have uc: "unat (capacity v) = 2 ^ k" using k by (simp add: unat_pow2)
  have len: "length (array v) = 2 ^ k" using inv uc by (simp add: vector_inv_def)
  show ?thesis
    using full uc len
    by (simp add: vector_push_back_def vector_reserve_full[OF inv k])
qed

lemma vector_push_back_ok:
  assumes inv: "vector_inv v" and room: "size_v v < capacity v \<or> unat (size_v v) < 2 ^ 60"
  shows "\<exists>v'. vector_push_back v x = Some (Inr v') \<and> vector_inv v' \<and>
              size_v v' = size_v v + 1 \<and> unat (size_v v') = Suc (unat (size_v v)) \<and>
              elements v' = elements v @ [copy_of v x] \<and>
              copy_constructor v' = copy_constructor v \<and>
              default_constructor v' = default_constructor v \<and>
              destroyed v' = destroyed v \<and> uninit v' = uninit v \<and>
              capacity v \<le> capacity v' \<and>
              (size_v v < capacity v \<longrightarrow> capacity v' = capacity v) \<and>
              (unat (capacity v) \<le> 2 ^ 60 \<longrightarrow> unat (capacity v') \<le> 2 ^ 60)"
proof -
  from vector_inv_capacity[OF inv] obtain k where
    k: "k < 64" "capacity v = 2 ^ k" "unat (capacity v) = 2 ^ k" by blast
  have len: "length (array v) = unat (capacity v)" and le: "size_v v \<le> capacity v"
    using inv by (simp_all add: vector_inv_def)
  have us: "unat (size_v v + 1) = Suc (unat (size_v v))"
    using inv by (rule vector_inv_size_Suc)
  show ?thesis
  proof (cases "size_v v < capacity v")
    case True
    let ?v' = "v\<lparr>array := (array v)[unat (size_v v) := copy_of v x], size_v := size_v v + 1\<rparr>"
    have lt: "unat (size_v v) < unat (capacity v)" using True by (simp add: word_less_nat_alt)
    have "vector_inv ?v'"
      using inv lt us by (simp add: vector_inv_def word_le_nat_alt)
    moreover have "elements ?v' = elements v @ [copy_of v x]"
      using lt len us by (simp add: elements_def take_Suc_conv_app_nth)
    ultimately show ?thesis
      using vector_push_back_room[OF True len, of x] us True by auto
  next
    case False
    with le have full: "size_v v = capacity v" by simp
    have "(2::nat) ^ k < 2 ^ 60" using room False full k by simp
    then have k60: "k < 60" by (rule power_less_imp_less_exp[rotated]) simp
    let ?v' = "v\<lparr>array := (array v @ replicate (2 ^ k) None)[unat (size_v v) := copy_of v x],
                  capacity := 2 ^ Suc k, size_v := size_v v + 1\<rparr>"
    have uc': "unat ((2::size_t) ^ Suc k) = 2 ^ Suc k" using k60 by (intro unat_pow2) simp
    have "power_of_two (2 ^ Suc k)"
      unfolding power_of_two_iff using k60 by (intro exI[of _ "Suc k"]) simp
    then have "vector_inv ?v'"
      using us full k(3) len uc' by (simp add: vector_inv_def word_le_nat_alt)
    moreover have "elements ?v' = elements v @ [copy_of v x]"
      using len us full k(3) by (simp add: elements_def take_Suc_conv_app_nth nth_append)
    moreover have "capacity v \<le> 2 ^ Suc k"
      using k(3) uc' by (simp add: word_le_nat_alt)
    moreover have "(2::nat) ^ Suc k \<le> 2 ^ 60"
      using k60 by (intro power_increasing) auto
    then have "unat (capacity ?v') \<le> 2 ^ 60" using uc' by simp
    ultimately show ?thesis
      using vector_push_back_full[OF inv full k60 k(2), of x] us False by auto
  qed
qed

lemma vector_inv_create:
  "\<exists>v. vector_create copy dflt junk = Inr v \<and> vector_inv v \<and> size_v v = 0 \<and>
       capacity v = 8 \<and> array v = replicate 8 None \<and> destroyed v = [] \<and>
       copy_constructor v = copy \<and> default_constructor v = dflt \<and> uninit v = junk"
proof -
  have "power_of_two (8::size_t)"
    unfolding power_of_two_iff by (intro exI[of _ 3]) simp
  then show ?thesis by (simp add: vector_create_eq vector_inv_def)
qed

lemma run_push_backs:
  assumes "vector_inv v" "unat (size_v v) + length xs \<le> 2 ^ 60"
  shows "\<exists>v'. run v (map PushBack xs) = Some (Inr v') \<and> vector_inv v' \<and>
              unat (size_v v') = unat (size_v v) + length xs \<and>
              elements v' = elements v @ map (copy_of v) xs \<and>
              copy_constructor v' = copy_constructor v \<and>
              default_constructor v' = default_constructor v \<and>
              destroyed v' = destroyed v \<and>
              (unat (capacity v) \<le> 2 ^ 60 \<longrightarrow> unat (capacity v') \<le> 2 ^ 60)"
  using assms
proof (induction xs arbitrary: v)
  case Nil
  then show ?case by simp
next
  case (Cons x xs)
  then have room: "size_v v < capacity v \<or> unat (size_v v) < 2 ^ 60" by simp
  from vector_push_back_ok[OF Cons.prems(1) room, of x] obtain v1 where
    v1: "vector_push_back v x = Some (Inr v1)" "vector_inv v1"
        "unat (size_v v1) = Suc (unat (size_v v))"
        "elements v1 = elements v @ [copy_of v x]"
        "copy_constructor v1 = copy_constructor v"
        "default_constructor v1 = default_constructor v"
        "destroyed v1 = destroyed v"
        "unat (capacity v) \<le> 2 ^ 60 \<longrightarrow> unat (capacity v1) \<le> 2 ^ 60"
    by blast
  have "unat (size_v v1) + length xs \<le> 2 ^ 60" using Cons.prems(2) v1(3) by simp
  from Cons.IH[OF v1(2) this] obtain v' where
    v': "run v1 (map PushBack xs) = Some (Inr v')" "vector_inv v'"
        "unat (size_v v') = unat (size_v v1) + length xs"
        "elements v' = elements v1 @ map (copy_of v1) xs"
        "copy_constructor v' = copy_constructor v1"
        "default_constructor v' = default_constructor v1"
        "destroyed v' = destroyed v1"
        "unat (capacity v1) \<le> 2 ^ 60 \<longrightarrow> unat (capacity v') \<le> 2 ^ 60"
    by blast
  have "map (copy_of v1) xs = map (copy_of v) xs"
    using copy_of_cong[OF v1(5)] by simp
  then show ?case using v1 v' by simp
qed

lemma vector_get_elements:
  assumes "vector_inv v" "i < unat (size_v v)"
  shows "vector_get v (of_nat i) = Inr (elements v ! i)"
proof -
  have "unat (size_v v) < 2 ^ 64" using unsigned_less[of "size_v v", where ?'a = nat] by simp
  then have "i < 2 ^ 64" using assms(2) by simp
  then have u: "unat (of_nat i :: size_t) = i" by (simp add: unat_of_nat)
  have "unat (size_v v) \<le> length (array v)"
    using assms(1) by (simp add: vector_inv_def word_le_nat_alt)
  then show ?thesis
    using assms(2) u by (simp add: vector_get_def word_less_nat_alt elements_def)
qed

section \<open>Appending\<close>

lemma run_append:
  "run v (xs @ ys) =
     (case run v xs of
        None \<Rightarrow> None
      | Some (Inl e) \<Rightarrow> Some (Inl e)
      | Some (Inr v1) \<Rightarrow> run v1 ys)"
  by (induction xs arbitrary: v) (auto split: option.splits sum.splits)

text \<open>The push that finds the vector full at capacity \<open>2 ^ 60\<close> asks for \<open>2 ^ 61\<close> slots:
  the byte count wraps to 0.\<close>

lemma vector_push_back_at_limit:
  assumes inv: "vector_inv v" and full: "size_v v = capacity v"
    and c: "unat (capacity v) = 2 ^ 60"
  shows "vector_push_back v x = Some (Inl OutOfBounds)"
proof -
  have u: "unat (capacity v + 1) = 2 ^ 60 + 1" using c by (simp add: unat_word_ariths)
  have "unat (capacity v) < unat (capacity v + 1)" unfolding u c by simp
  then have "capacity v < capacity v + 1" by (simp only: word_less_nat_alt)
  moreover have "2 ^ 60 < unat (capacity v + 1)" "unat (capacity v + 1) \<le> 2 ^ 63"
    unfolding u by simp_all
  ultimately have "vector_reserve v (capacity v + 1) = Some (Inl OutOfBounds)"
    by (rule vector_reserve_wrap)
  then show ?thesis using full by (simp add: vector_push_back_def)
qed

lemma run_push_backs_beyond:
  assumes "length xs = 2 ^ 60"
  shows "run_new copy dflt junk (map PushBack (xs @ [x])) = Some (Inl OutOfBounds)"
proof -
  from vector_inv_create[of copy dflt junk] obtain v0 where
    v0: "vector_create copy dflt junk = Inr v0" "vector_inv v0" "size_v v0 = 0"
        "capacity v0 = 8"
    by blast
  have "unat (size_v v0) + length xs \<le> 2 ^ 60" using assms v0(3) by simp
  from run_push_backs[OF v0(2) this] obtain v where
    v: "run v0 (map PushBack xs) = Some (Inr v)" "vector_inv v"
       "unat (size_v v) = unat (size_v v0) + length xs"
       "unat (capacity v0) \<le> 2 ^ 60 \<longrightarrow> unat (capacity v) \<le> 2 ^ 60"
    by blast
  have s: "unat (size_v v) = 2 ^ 60" using v(3) v0(3) assms by simp
  have "unat (capacity v) \<le> 2 ^ 60" using v(4) v0(4) by simp
  moreover have "unat (size_v v) \<le> unat (capacity v)"
    using v(2) by (simp add: vector_inv_def word_le_nat_alt)
  ultimately have c: "unat (capacity v) = 2 ^ 60" using s by simp
  then have "unat (size_v v) = unat (capacity v)" using s by simp
  then have full: "size_v v = capacity v" by (simp only: word_unat_eq_iff)
  have "vector_push_back v x = Some (Inl OutOfBounds)"
    using v(2) full c by (rule vector_push_back_at_limit)
  then show ?thesis
    using v(1) v0(1) by (simp add: run_new_def run_append)
qed

text \<open>
  C2, as the code has it. For \<open>N \<le> 2 ^ 60\<close>: after \<open>N\<close> calls of \<^verbatim>\<open>vector_push_back\<close> on
  a vector fresh from \<^verbatim>\<open>vector_create\<close> the size is \<open>N\<close>, and \<^verbatim>\<open>vector_get\<close> at \<open>i < N\<close>
  returns the copy of the \<open>i\<close>-th pushed element (\<^verbatim>\<open>NULL\<close> for a pushed \<^verbatim>\<open>NULL\<close>), in
  push order. All \<open>N\<close> calls return.
\<close>

theorem push_back_sequence:
  assumes "length xs \<le> 2 ^ 60"
  shows "\<exists>v. run_new copy dflt junk (map PushBack xs) = Some (Inr v) \<and>
             unat (vector_size v) = length xs \<and>
             (\<forall>i<length xs. vector_get v (of_nat i) = Inr (map_option copy (xs ! i)))"
proof -
  from vector_inv_create[of copy dflt junk] obtain v0 where
    v0: "vector_create copy dflt junk = Inr v0" "vector_inv v0" "size_v v0 = 0"
        "copy_constructor v0 = copy"
    by blast
  have "unat (size_v v0) + length xs \<le> 2 ^ 60" using assms v0(3) by simp
  from run_push_backs[OF v0(2) this] obtain v where
    v: "run v0 (map PushBack xs) = Some (Inr v)" "vector_inv v"
       "unat (size_v v) = unat (size_v v0) + length xs"
       "elements v = elements v0 @ map (copy_of v0) xs"
    by blast
  have c: "copy_of v0 x = map_option copy x" for x
    using v0(4) by (cases x) (simp_all add: copy_of_def)
  have e: "elements v = map (map_option copy) xs"
    using v(4) v0(3) c by (simp add: elements_def)
  have n: "unat (size_v v) = length xs" using v(3) v0(3) by simp
  have "vector_get v (of_nat i) = Inr (map_option copy (xs ! i))" if "i < length xs" for i
    using vector_get_elements[OF v(2), of i] that n e by simp
  then show ?thesis
    using v(1) v0(1) n by (auto simp: run_new_def vector_size_def)
qed

theorem push_back_sequence_witness:
  "length [Some (10::nat), None, Some 30] \<le> 2 ^ 60 \<and>
   (\<exists>v. run_new Suc (\<lambda>_. None) None (map PushBack [Some 10, None, Some 30]) = Some (Inr v) \<and>
        unat (vector_size v) = 3 \<and>
        vector_get v 0 = Inr (Some 11) \<and> vector_get v 1 = Inr None \<and>
        vector_get v 2 = Inr (Some 31))"
proof -
  have h: "length [Some (10::nat), None, Some 30] \<le> 2 ^ 60" by simp
  from push_back_sequence[OF h, of Suc "\<lambda>_. None" None] obtain v where
    v: "run_new Suc (\<lambda>_. None) None (map PushBack [Some 10, None, Some 30]) = Some (Inr v)"
       "unat (vector_size v) = 3"
       "\<forall>i<3. vector_get v (of_nat i) = Inr (map_option Suc ([Some 10, None, Some 30] ! i))"
    by auto
  have "vector_get v 0 = Inr (Some 11)" using v(3)[rule_format, of 0] by simp
  moreover have "vector_get v 1 = Inr None" using v(3)[rule_format, of 1] by simp
  moreover have "vector_get v 2 = Inr (Some 31)" using v(3)[rule_format, of 2] by simp
  ultimately show ?thesis using h v(1,2) by auto
qed

text \<open>
  The claim C2 as stated, for every \<open>N\<close>, fails at \<open>N = 2 ^ 60 + 1\<close>: the last push finds
  the vector full at capacity \<open>2 ^ 60\<close> and asks \<^verbatim>\<open>realloc\<close> for
  \<^verbatim>\<open>2^61 * sizeof(void*)\<close> bytes, which is 0 in \<^verbatim>\<open>size_t\<close>; the loop that clears the new
  slots then writes outside the block, and there is no size \<open>N\<close> afterward.
\<close>

theorem push_back_sequence_counterexample:
  "outcome (run_new (\<lambda>x::nat. x) (\<lambda>_. None) None
     (map PushBack (replicate 1152921504606846977 (Some 7)))) = Some (Inl OutOfBounds)"
proof -
  have n: "(1152921504606846977::nat) = Suc (2 ^ 60)" by simp
  have r: "replicate (Suc (2 ^ 60)) (Some (7::nat)) = replicate (2 ^ 60) (Some 7) @ [Some 7]"
    by (simp only: replicate_Suc replicate_append_same)
  have "run_new (\<lambda>x::nat. x) (\<lambda>_. None) None
          (map PushBack (replicate (2 ^ 60) (Some 7) @ [Some 7])) = Some (Inl OutOfBounds)"
    by (rule run_push_backs_beyond) simp
  then show ?thesis unfolding n r by (simp add: outcome_def result_of_def)
qed

section \<open>Reading\<close>

text \<open>
  C9. \<^verbatim>\<open>vector_get\<close> asserts \<open>position < size\<close>. When the assertion holds it returns the
  handle stored in the slot at \<open>position\<close> itself: the copy callback is not called (the result
  does not depend on it). It returns no new vector: the vector is as it was.
\<close>

theorem get_returns_slot:
  assumes "vector_inv v"
  shows "vector_get v position =
           (if position < vector_size v then Inr (array v ! unat position)
            else Inl AssertionFailed) \<and>
         vector_get (v\<lparr>copy_constructor := f\<rparr>) position = vector_get v position"
proof -
  have "unat (size_v v) \<le> length (array v)"
    using assms by (simp add: vector_inv_def word_le_nat_alt)
  then show ?thesis
    by (auto simp: vector_get_def vector_size_def word_less_nat_alt)
qed

theorem get_returns_slot_witness:
  "vector_inv \<lparr>copy_constructor = Suc, default_constructor = (\<lambda>_. None),
       array = [Some 5, None, None, None, None, None, None, None],
       size_v = 1, capacity = 8, destroyed = [], uninit = None\<rparr> \<and>
   vector_get \<lparr>copy_constructor = Suc, default_constructor = (\<lambda>_. None),
       array = [Some 5, None, None, None, None, None, None, None],
       size_v = 1, capacity = 8, destroyed = [], uninit = None\<rparr> 0 = Inr (Some 5) \<and>
   vector_get \<lparr>copy_constructor = Suc, default_constructor = (\<lambda>_. None),
       array = [Some 5, None, None, None, None, None, None, None],
       size_v = 1, capacity = 8, destroyed = [], uninit = None\<rparr> 1 = Inl AssertionFailed"
proof -
  let ?v = "\<lparr>copy_constructor = Suc, default_constructor = (\<lambda>_. None),
       array = [Some 5, None, None, None, None, None, None, None],
       size_v = 1, capacity = 8, destroyed = [], uninit = None\<rparr>"
  have "power_of_two (8::size_t)"
    unfolding power_of_two_iff by (intro exI[of _ 3]) simp
  then have h: "vector_inv ?v" by (simp add: vector_inv_def)
  show ?thesis
    using h get_returns_slot[OF h, of 0] get_returns_slot[OF h, of 1]
    by (simp add: vector_size_def)
qed

section \<open>Reserving\<close>

lemma vector_reserve_ok:
  assumes inv: "vector_inv v" and n: "n \<le> capacity v \<or> unat n \<le> 2 ^ 60"
  shows "\<exists>v'. vector_reserve v n = Some (Inr v') \<and> vector_inv v' \<and>
              (n \<le> capacity v \<longrightarrow> v' = v) \<and>
              (capacity v < n \<longrightarrow>
                 (\<exists>k<64. unat (capacity v') = 2 ^ k \<and> unat n \<le> 2 ^ k \<and>
                         (\<forall>i<k. 2 ^ i < unat n)) \<and>
                 array v' = array v @ replicate (unat (capacity v') - unat (capacity v)) None) \<and>
              n \<le> capacity v' \<and> capacity v \<le> capacity v' \<and>
              size_v v' = size_v v \<and> elements v' = elements v \<and>
              destroyed v' = destroyed v \<and> copy_constructor v' = copy_constructor v \<and>
              default_constructor v' = default_constructor v \<and> uninit v' = uninit v \<and>
              (unat (capacity v) \<le> 2 ^ 60 \<longrightarrow> unat (capacity v') \<le> 2 ^ 60)"
proof (cases "n \<le> capacity v")
  case True
  then have "\<not> capacity v < n" by simp
  then show ?thesis using True inv by (simp add: vector_reserve_noop)
next
  case False
  then have lt: "capacity v < n" by simp
  have len: "length (array v) = unat (capacity v)" and le: "size_v v \<le> capacity v"
    using inv by (simp_all add: vector_inv_def)
  have n60: "unat n \<le> 2 ^ 60" using n False by simp
  from vector_reserve_grow[OF len lt n60] obtain k where
    k: "k \<le> 60" "unat n \<le> 2 ^ k" "\<forall>i<k. 2 ^ i < unat n"
    and r: "vector_reserve v n =
             Some (Inr (v\<lparr>array := array v @ replicate (2 ^ k - unat (capacity v)) None,
                           capacity := 2 ^ k\<rparr>))"
    by blast
  let ?v' = "v\<lparr>array := array v @ replicate (2 ^ k - unat (capacity v)) None, capacity := 2 ^ k\<rparr>"
  have k64: "k < 64" using k(1) by simp
  have uc: "unat ((2::size_t) ^ k) = 2 ^ k" using k64 by (rule unat_pow2)
  have c60: "unat (capacity (v\<lparr>array := array v @ replicate (2 ^ k - unat (capacity v)) None,
                                 capacity := 2 ^ k\<rparr>)) \<le> 2 ^ 60"
  proof -
    have "(2::nat) ^ k \<le> 2 ^ 60" using k(1) by (intro power_increasing) auto
    then show ?thesis unfolding uc[symmetric] by simp
  qed
  have ltn: "unat (capacity v) < unat n" using lt by (simp add: word_less_nat_alt)
  have p: "power_of_two (2 ^ k)" unfolding power_of_two_iff using k64 by blast
  have i: "vector_inv ?v'"
    using p le ltn k(2) len uc by (simp add: vector_inv_def word_le_nat_alt)
  have e: "elements ?v' = elements v"
    using le len by (simp add: elements_def word_le_nat_alt)
  have c: "n \<le> capacity ?v'" "capacity v \<le> capacity ?v'"
    using ltn k(2) uc by (simp_all add: word_le_nat_alt)
  have s: "\<exists>k<64. unat (capacity ?v') = 2 ^ k \<and> unat n \<le> 2 ^ k \<and> (\<forall>i<k. 2 ^ i < unat n)"
    using k k64 uc by (intro exI[of _ k]) simp
  show ?thesis
    using r i e c s False uc c60 by (intro exI[of _ ?v']) simp
qed

text \<open>
  C7, as the code has it. For \<^verbatim>\<open>n <= 2^60\<close>, \<^verbatim>\<open>vector_reserve(v, n)\<close> returns. When
  \<^verbatim>\<open>n > capacity\<close> the new capacity is the smallest power of two that is at least \<^verbatim>\<open>n\<close>;
  otherwise the vector is unchanged. In both cases the capacity is at least \<^verbatim>\<open>n\<close> and
  not less than before, and the size and the stored elements are unchanged.
  Above \<^verbatim>\<open>2^60\<close> the new capacity is \<^verbatim>\<open>2^61\<close> or more and the byte count
  \<^verbatim>\<open>cap * sizeof(void*)\<close> wraps to 0 (lemma \<open>vector_reserve_wrap\<close>); above \<^verbatim>\<open>2^63\<close> no
  power of two fits a \<^verbatim>\<open>size_t\<close> and \<^verbatim>\<open>get_new_capacity\<close> never returns (lemma
  \<open>get_new_capacity_None\<close>).
\<close>

theorem reserve_capacity:
  assumes "vector_inv v" "unat n \<le> 2 ^ 60"
  shows "\<exists>v'. vector_reserve v n = Some (Inr v') \<and>
              (n \<le> vector_capacity v \<longrightarrow> v' = v) \<and>
              (vector_capacity v < n \<longrightarrow>
                 (\<exists>k<64. unat (vector_capacity v') = 2 ^ k \<and> unat n \<le> 2 ^ k \<and>
                         (\<forall>i<k. 2 ^ i < unat n))) \<and>
              n \<le> vector_capacity v' \<and> vector_capacity v \<le> vector_capacity v' \<and>
              vector_size v' = vector_size v \<and> elements v' = elements v"
proof -
  have "n \<le> capacity v \<or> unat n \<le> 2 ^ 60" using assms(2) by simp
  from vector_reserve_ok[OF assms(1) this] show ?thesis
    unfolding vector_capacity_def vector_size_def by blast
qed

text \<open>
  The claim C7 as stated, for every \<^verbatim>\<open>n\<close>, fails on a fresh vector at \<^verbatim>\<open>n = 2^60 + 1\<close>,
  where the call leaves the block that \<^verbatim>\<open>realloc\<close> granted for 0 bytes, and at
  \<^verbatim>\<open>n = 2^63 + 1\<close>, where the call does not return.
\<close>

theorem reserve_capacity_counterexample:
  "outcome (run_new (\<lambda>x::nat. x) (\<lambda>_. None) None [Reserve 1152921504606846977]) =
     Some (Inl OutOfBounds) \<and>
   outcome (run_new (\<lambda>x::nat. x) (\<lambda>_. None) None [Reserve 9223372036854775809]) = None"
proof -
  let ?v = "\<lparr>copy_constructor = (\<lambda>x::nat. x), default_constructor = (\<lambda>_. None),
             array = replicate 8 None, size_v = 0, capacity = 8, destroyed = [],
             uninit = None\<rparr>"
  have "capacity ?v < 1152921504606846977"
       "2 ^ 60 < unat (1152921504606846977 :: size_t)"
       "unat (1152921504606846977 :: size_t) \<le> 2 ^ 63"
    by simp_all
  then have a: "vector_reserve ?v 1152921504606846977 = Some (Inl OutOfBounds)"
    by (rule vector_reserve_wrap)
  have "(2::nat) ^ 63 < unat (9223372036854775809 :: size_t)" by simp
  then have "get_new_capacity (9223372036854775809 :: size_t) = None"
    by (rule get_new_capacity_None)
  then have b: "vector_reserve ?v 9223372036854775809 = None"
    by (simp add: vector_reserve_def)
  show ?thesis
    using a b by (simp add: run_new_def vector_create_eq outcome_def result_of_def)
qed

theorem reserve_capacity_witness:
  "vector_inv \<lparr>copy_constructor = Suc, default_constructor = (\<lambda>_. None),
       array = [Some 5, None, None, None, None, None, None, None],
       size_v = 1, capacity = 8, destroyed = [], uninit = Some 7\<rparr> \<and>
   unat (9::size_t) \<le> 2 ^ 60 \<and> unat (4::size_t) \<le> 2 ^ 60 \<and>
   (\<exists>v'. vector_reserve \<lparr>copy_constructor = Suc, default_constructor = (\<lambda>_. None),
       array = [Some 5, None, None, None, None, None, None, None],
       size_v = 1, capacity = 8, destroyed = [], uninit = Some 7\<rparr> 9 = Some (Inr v') \<and>
     9 \<le> vector_capacity v' \<and> vector_size v' = 1 \<and> elements v' = [Some 5]) \<and>
   outcome (vector_reserve \<lparr>copy_constructor = Suc, default_constructor = (\<lambda>_. None),
       array = [Some 5, None, None, None, None, None, None, None],
       size_v = 1, capacity = 8, destroyed = [], uninit = Some 7\<rparr> 9) =
     Some (Inr ([Some 5, None, None, None, None, None, None, None,
                 None, None, None, None, None, None, None, None], 1, 16, [])) \<and>
   vector_reserve \<lparr>copy_constructor = Suc, default_constructor = (\<lambda>_. None),
       array = [Some 5, None, None, None, None, None, None, None],
       size_v = 1, capacity = 8, destroyed = [], uninit = Some 7\<rparr> 4 =
     Some (Inr \<lparr>copy_constructor = Suc, default_constructor = (\<lambda>_. None),
       array = [Some 5, None, None, None, None, None, None, None],
       size_v = 1, capacity = 8, destroyed = [], uninit = Some 7\<rparr>)"
proof -
  let ?v = "\<lparr>copy_constructor = Suc, default_constructor = (\<lambda>_. None),
       array = [Some 5, None, None, None, None, None, None, None],
       size_v = 1, capacity = 8, destroyed = [], uninit = Some (7::nat)\<rparr>"
  have "power_of_two (8::size_t)"
    unfolding power_of_two_iff by (intro exI[of _ 3]) simp
  then have h: "vector_inv ?v" by (simp add: vector_inv_def)
  have n: "unat (9::size_t) \<le> 2 ^ 60" and n4: "unat (4::size_t) \<le> 2 ^ 60" by simp_all
  have o: "outcome (vector_reserve ?v 9) =
     Some (Inr ([Some 5, None, None, None, None, None, None, None,
                 None, None, None, None, None, None, None, None], 1, 16, []))"
    by code_simp
  from reserve_capacity[OF h n] obtain v' where
    "vector_reserve ?v 9 = Some (Inr v')" "9 \<le> vector_capacity v'"
    "vector_size v' = vector_size ?v" "elements v' = elements ?v"
    by blast
  then have a: "\<exists>v'. vector_reserve ?v 9 = Some (Inr v') \<and>
     9 \<le> vector_capacity v' \<and> vector_size v' = 1 \<and> elements v' = [Some 5]"
    by (intro exI[of _ v']) (simp add: vector_size_def elements_def)
  from reserve_capacity[OF h n4] have b: "vector_reserve ?v 4 = Some (Inr ?v)"
    by (auto simp: vector_capacity_def)
  from h n n4 a o b show ?thesis by blast
qed

section \<open>Removing the last element\<close>

lemma replicate_8: "replicate 8 x = [x, x, x, x, x, x, x, x]"
  by (simp add: eval_nat_numeral)

lemma vector_pop_back_nonempty:
  assumes inv: "vector_inv v" and ne: "0 < size_v v"
  shows "vector_pop_back v =
           Inr (v\<lparr>size_v := size_v v - 1,
                   destroyed := destroyed v @ [array v ! unat (size_v v - 1)],
                   array := (array v)[unat (size_v v - 1) := None]\<rparr>)"
proof -
  have "unat (size_v v - 1) < unat (size_v v)"
    using ne by (intro measure_unat) auto
  moreover have "unat (size_v v) \<le> length (array v)"
    using inv by (simp add: vector_inv_def word_le_nat_alt)
  ultimately show ?thesis
    by (simp add: vector_pop_back_def Let_def destructor_def)
qed

lemma vector_pop_back_empty:
  assumes inv: "vector_inv v" and e: "size_v v = 0"
  shows "vector_pop_back v = Inl OutOfBounds"
proof -
  have "length (array v) < 2 ^ 64"
    using inv unsigned_less[of "capacity v", where ?'a = nat] by (simp add: vector_inv_def)
  then show ?thesis
    using e by (simp add: vector_pop_back_def Let_def unat_minus_1_size_t)
qed

text \<open>
  C3, as the code has it. \<^verbatim>\<open>vector_pop_back\<close> and \<^verbatim>\<open>vector_back\<close> do not test that the
  vector is non-empty: \<^verbatim>\<open>size > 0\<close> is left to the caller. On a non-empty vector
  \<^verbatim>\<open>vector_pop_back\<close> passes the last element to the destructor, clears its slot and
  decrements the size, and \<^verbatim>\<open>vector_back\<close> returns the address of the last slot. On an
  empty vector \<^verbatim>\<open>vector_back\<close> still returns an address, that of the slot before the
  array, and \<^verbatim>\<open>vector_pop_back\<close> wraps the size around and reaches for the slot at that
  index, outside the array. No assertion fails in either.
\<close>

theorem pop_back_unchecked:
  assumes "vector_inv v"
  shows "(0 < vector_size v \<longrightarrow>
            vector_pop_back v =
              Inr (v\<lparr>size_v := size_v v - 1,
                      destroyed := destroyed v @ [array v ! unat (size_v v - 1)],
                      array := (array v)[unat (size_v v - 1) := None]\<rparr>) \<and>
            vector_back v = vector_size v - 1 \<and>
            unat (vector_back v) < unat (vector_size v)) \<and>
         (vector_size v = 0 \<longrightarrow>
            vector_pop_back v = Inl OutOfBounds \<and> vector_back v = - 1) \<and>
         vector_pop_back v \<noteq> Inl AssertionFailed"
proof -
  have a: "unat (vector_back v) < unat (vector_size v)" if "0 < vector_size v"
    using that unfolding vector_back_def vector_size_def by (intro measure_unat) auto
  show ?thesis
  proof (cases "size_v v = 0")
    case True
    then show ?thesis
      using vector_pop_back_empty[OF assms True] by (simp add: vector_size_def vector_back_def)
  next
    case False
    then have ne: "0 < size_v v" by (simp add: word_greater_zero_iff)
    show ?thesis
      using vector_pop_back_nonempty[OF assms ne] a ne False
      by (simp add: vector_size_def vector_back_def)
  qed
qed

text \<open>
  The claim C3 as stated fails on a fresh, empty vector: \<^verbatim>\<open>vector_back\<close> returns a value,
  and \<^verbatim>\<open>vector_pop_back\<close> ends in an access outside the array, not in a failed assertion.
\<close>

theorem pop_back_unchecked_counterexample:
  "result_of (vector_create (\<lambda>x::nat. x) (\<lambda>_. None) None) =
     Inr ([None, None, None, None, None, None, None, None], 0, 8, []) \<and>
   outcome (run_new (\<lambda>x::nat. x) (\<lambda>_. None) None [PopBack]) = Some (Inl OutOfBounds) \<and>
   (case vector_create (\<lambda>x::nat. x) (\<lambda>_. None) None of
      Inl e \<Rightarrow> False
    | Inr v \<Rightarrow> vector_size v = 0 \<and> vector_back v = 18446744073709551615)"
  by (simp add: run_new_def vector_create_eq vector_pop_back_def Let_def unat_minus_1_size_t
      outcome_def result_of_def observe_def vector_size_def vector_back_def replicate_8)

theorem pop_back_unchecked_witness:
  "vector_inv \<lparr>copy_constructor = Suc, default_constructor = (\<lambda>_. None),
       array = [Some 5, Some 6, None, None, None, None, None, None],
       size_v = 2, capacity = 8, destroyed = [], uninit = None\<rparr> \<and>
   result_of (vector_pop_back \<lparr>copy_constructor = Suc, default_constructor = (\<lambda>_. None),
       array = [Some 5, Some 6, None, None, None, None, None, None],
       size_v = 2, capacity = 8, destroyed = [], uninit = None\<rparr>) =
     Inr ([Some 5, None, None, None, None, None, None, None], 1, 8, [Some 6]) \<and>
   vector_back \<lparr>copy_constructor = Suc, default_constructor = (\<lambda>_. None),
       array = [Some 5, Some 6, None, None, None, None, None, None],
       size_v = 2, capacity = 8, destroyed = [], uninit = None\<rparr> = 1 \<and>
   vector_inv \<lparr>copy_constructor = Suc, default_constructor = (\<lambda>_. None),
       array = [None, None, None, None, None, None, None, None],
       size_v = 0, capacity = 8, destroyed = [], uninit = None\<rparr> \<and>
   result_of (vector_pop_back \<lparr>copy_constructor = Suc, default_constructor = (\<lambda>_. None),
       array = [None, None, None, None, None, None, None, None],
       size_v = 0, capacity = 8, destroyed = [], uninit = None\<rparr>) = Inl OutOfBounds \<and>
   vector_back \<lparr>copy_constructor = Suc, default_constructor = (\<lambda>_. None),
       array = [None, None, None, None, None, None, None, None],
       size_v = 0, capacity = 8, destroyed = [], uninit = None\<rparr> = 18446744073709551615"
proof -
  let ?v = "\<lparr>copy_constructor = Suc, default_constructor = (\<lambda>_. None),
       array = [Some 5, Some 6, None, None, None, None, None, None],
       size_v = 2, capacity = 8, destroyed = [], uninit = None\<rparr>"
  let ?e = "\<lparr>copy_constructor = Suc, default_constructor = (\<lambda>_. None),
       array = [None, None, None, None, None, None, None, None],
       size_v = 0, capacity = 8, destroyed = [], uninit = None\<rparr>"
  have "power_of_two (8::size_t)"
    unfolding power_of_two_iff by (intro exI[of _ 3]) simp
  then have h: "vector_inv ?v" and he: "vector_inv ?e" by (simp_all add: vector_inv_def)
  have m: "(- 1 :: size_t) = 18446744073709551615" by simp
  show ?thesis
    using h he pop_back_unchecked[OF h] pop_back_unchecked[OF he]
    by (simp add: vector_size_def result_of_def observe_def m)
qed

section \<open>Erasing\<close>

lemma erase_loop_full:
  "i < size_v v \<Longrightarrow> length (array v) = unat (size_v v) \<Longrightarrow> erase_loop v i = Inl OutOfBounds"
proof (induction v i rule: erase_loop.induct)
  case (1 v i)
  show ?case
  proof (cases "unat (i + 1) < length (array v) \<and> unat i < length (array v)")
    case False
    then show ?thesis using 1(2) by (subst erase_loop.simps) auto
  next
    case True
    let ?v1 = "v\<lparr>array := (array v)[unat i := array v ! unat (i + 1)]\<rparr>"
    have "i + 1 < size_v ?v1" using True 1(3) by (simp add: word_less_nat_alt)
    moreover have "length (array ?v1) = unat (size_v ?v1)" using 1(3) by simp
    ultimately have "erase_loop ?v1 (i + 1) = Inl OutOfBounds"
      using 1(1)[OF 1(2) True] by blast
    then show ?thesis using 1(2) True by (subst erase_loop.simps) simp
  qed
qed

lemma erase_loop_room:
  "i \<le> size_v v \<Longrightarrow> unat (size_v v) < length (array v) \<Longrightarrow>
   \<exists>a'. erase_loop v i = Inr (v\<lparr>array := a'\<rparr>) \<and> length a' = length (array v) \<and>
        (\<forall>j<length a'. a' ! j =
           (if unat i \<le> j \<and> j < unat (size_v v) then array v ! Suc j else array v ! j))"
proof (induction v i rule: erase_loop.induct)
  case (1 v i)
  show ?case
  proof (cases "i < size_v v")
    case False
    with 1(2) have "unat i = unat (size_v v)" by simp
    then have "\<forall>j<length (array v). array v ! j =
           (if unat i \<le> j \<and> j < unat (size_v v) then array v ! Suc j else array v ! j)"
      by auto
    moreover have "erase_loop v i = Inr (v\<lparr>array := array v\<rparr>)"
      using False by (subst erase_loop.simps) simp
    ultimately show ?thesis by blast
  next
    case True
    then have lt: "unat i < unat (size_v v)" by (simp add: word_less_nat_alt)
    have s: "unat (i + 1) = Suc (unat i)" using True by (rule unat_Suc_less)
    have inb: "unat (i + 1) < length (array v) \<and> unat i < length (array v)"
      using lt s 1(3) by simp
    let ?a1 = "(array v)[unat i := array v ! unat (i + 1)]"
    let ?v1 = "v\<lparr>array := ?a1\<rparr>"
    have "i + 1 \<le> size_v ?v1" using lt s by (simp add: word_le_nat_alt)
    moreover have "unat (size_v ?v1) < length (array ?v1)" using 1(3) by simp
    ultimately obtain a' where
      a': "erase_loop ?v1 (i + 1) = Inr (?v1\<lparr>array := a'\<rparr>)" "length a' = length (array ?v1)"
          "\<forall>j<length a'. a' ! j =
             (if unat (i + 1) \<le> j \<and> j < unat (size_v ?v1) then array ?v1 ! Suc j
              else array ?v1 ! j)"
      using 1(1)[OF True inb] by blast
    have "a' ! j = (if unat i \<le> j \<and> j < unat (size_v v) then array v ! Suc j else array v ! j)"
      if "j < length a'" for j
      using a'(3)[rule_format, OF that] that a'(2) s lt inb
      by (auto simp: nth_list_update)
    moreover have "erase_loop v i = Inr (v\<lparr>array := a'\<rparr>)"
      using True inb a'(1) by (subst erase_loop.simps) simp
    ultimately show ?thesis using a'(2) by auto
  qed
qed

lemma vector_erase_noop: "size_v v \<le> position \<Longrightarrow> vector_erase v position = Inr v"
  by (simp add: vector_erase_def)

lemma vector_erase_full:
  assumes inv: "vector_inv v" and p: "position < size_v v" and full: "size_v v = capacity v"
  shows "vector_erase v position = Inl OutOfBounds"
proof -
  have len: "length (array v) = unat (size_v v)" using inv full by (simp add: vector_inv_def)
  have "erase_loop (destructor v (array v ! unat position)) position = Inl OutOfBounds"
    using p len by (intro erase_loop_full) (simp_all add: destructor_def)
  moreover have "\<not> size_v v \<le> position" using p by simp
  moreover have "unat position < length (array v)" using p len by (simp add: word_less_nat_alt)
  ultimately show ?thesis by (simp add: vector_erase_def)
qed

lemma vector_erase_room:
  assumes inv: "vector_inv v" and p: "position < size_v v" and room: "size_v v < capacity v"
  shows "\<exists>v'. vector_erase v position = Inr v' \<and> vector_inv v' \<and>
              size_v v' = size_v v - 1 \<and> unat (size_v v') = unat (size_v v) - 1 \<and>
              capacity v' = capacity v \<and>
              destroyed v' = destroyed v @ [array v ! unat position] \<and>
              elements v' = take (unat position) (elements v) @
                            drop (Suc (unat position)) (elements v) \<and>
              copy_constructor v' = copy_constructor v \<and>
              default_constructor v' = default_constructor v \<and> uninit v' = uninit v"
proof -
  let ?d = "destructor v (array v ! unat position)"
  have len: "length (array v) = unat (capacity v)" using inv by (simp add: vector_inv_def)
  have lt: "unat position < unat (size_v v)" "unat (size_v v) < length (array v)"
    using p room len by (simp_all add: word_less_nat_alt)
  have "position \<le> size_v ?d" "unat (size_v ?d) < length (array ?d)"
    using p lt by (simp_all add: destructor_def)
  from erase_loop_room[OF this] obtain a' where
    a': "erase_loop ?d position = Inr (?d\<lparr>array := a'\<rparr>)" "length a' = length (array v)"
        "\<forall>j<length a'. a' ! j =
           (if unat position \<le> j \<and> j < unat (size_v v) then array v ! Suc j else array v ! j)"
    by (auto simp: destructor_def)
  let ?v' = "?d\<lparr>array := a', size_v := size_v v - 1\<rparr>"
  have ne: "size_v v \<noteq> 0" using lt(1) by auto
  have us: "unat (size_v v - 1) = unat (size_v v) - 1" using ne by (rule unat_minus_one)
  have np: "\<not> size_v v \<le> position" using p by simp
  have r: "vector_erase v position = Inr ?v'"
    using np lt a'(1) by (simp add: vector_erase_def destructor_def)
  have i: "vector_inv ?v'"
    using inv a'(2) us by (auto simp: vector_inv_def destructor_def word_le_nat_alt)
  have e: "elements ?v' = take (unat position) (elements v) @
                          drop (Suc (unat position)) (elements v)"
  proof (rule nth_equalityI)
    show "length (elements ?v') =
          length (take (unat position) (elements v) @ drop (Suc (unat position)) (elements v))"
      using lt a'(2) us by (simp add: elements_def destructor_def)
  next
    fix j assume "j < length (elements ?v')"
    then have j: "j < unat (size_v v) - 1"
      using lt a'(2) us by (simp add: elements_def destructor_def)
    then have "j < length a'" using lt a'(2) by simp
    from a'(3)[rule_format, OF this] j lt
    show "elements ?v' ! j =
          (take (unat position) (elements v) @ drop (Suc (unat position)) (elements v)) ! j"
      by (auto simp: elements_def destructor_def us nth_append)
  qed
  show ?thesis
    using r i e us by (intro exI[of _ ?v']) (simp add: destructor_def)
qed

section \<open>Inserting\<close>

lemma insert_loop_zero:
  "length (array v) < 2 ^ 64 \<Longrightarrow> insert_loop v 0 i = Some (Inl OutOfBounds)"
proof (induction "unat i" arbitrary: v i rule: less_induct)
  case less
  show ?case
  proof (cases "unat (i - 1) < length (array v) \<and> unat i < length (array v)")
    case False
    then show ?thesis by (subst insert_loop.simps) auto
  next
    case True
    have "i \<noteq> 0"
    proof
      assume "i = 0"
      then have "unat (i - 1) = 18446744073709551615" by (simp add: unat_minus_1_size_t)
      with True less.prems show False by simp
    qed
    then have "unat (i - 1) < unat i" by (rule measure_unat)
    moreover have "length (array (v\<lparr>array := (array v)[unat i := array v ! unat (i - 1)]\<rparr>)) < 2 ^ 64"
      using less.prems by simp
    ultimately have "insert_loop (v\<lparr>array := (array v)[unat i := array v ! unat (i - 1)]\<rparr>) 0 (i - 1)
                     = Some (Inl OutOfBounds)"
      by (rule less.hyps)
    then show ?thesis using True by (subst insert_loop.simps) simp
  qed
qed

lemma insert_loop_ok:
  "0 < p \<Longrightarrow> unat i < length (array v) \<Longrightarrow>
   \<exists>a'. insert_loop v p i = Some (Inr (v\<lparr>array := a'\<rparr>)) \<and> length a' = length (array v) \<and>
        (\<forall>j<length a'. a' ! j =
           (if unat p \<le> j \<and> j \<le> unat i then array v ! (j - 1) else array v ! j))"
proof (induction "unat i" arbitrary: v i rule: less_induct)
  case less
  show ?case
  proof (cases "p \<le> i")
    case False
    then have "unat i < unat p" by (simp add: word_le_nat_alt)
    then have "\<forall>j<length (array v). array v ! j =
           (if unat p \<le> j \<and> j \<le> unat i then array v ! (j - 1) else array v ! j)"
      by auto
    moreover have "insert_loop v p i = Some (Inr (v\<lparr>array := array v\<rparr>))"
      using False by (subst insert_loop.simps) simp
    ultimately show ?thesis by blast
  next
    case True
    then have pi: "unat p \<le> unat i" by (simp add: word_le_nat_alt)
    have p0: "0 < unat p" using less.prems(1) by (simp add: word_less_nat_alt)
    have "i \<noteq> 0" using pi p0 by auto
    then have s: "unat (i - 1) = unat i - 1" by (rule unat_minus_one)
    have lt: "unat (i - 1) < unat i" using s pi p0 by simp
    let ?a1 = "(array v)[unat i := array v ! unat (i - 1)]"
    let ?v1 = "v\<lparr>array := ?a1\<rparr>"
    have "unat (i - 1) < length (array ?v1)" using lt less.prems(2) by simp
    from less.hyps[OF lt less.prems(1) this] obtain a' where
      a': "insert_loop ?v1 p (i - 1) = Some (Inr (?v1\<lparr>array := a'\<rparr>))"
          "length a' = length (array ?v1)"
          "\<forall>j<length a'. a' ! j =
             (if unat p \<le> j \<and> j \<le> unat (i - 1) then array ?v1 ! (j - 1) else array ?v1 ! j)"
      by blast
    have "a' ! j = (if unat p \<le> j \<and> j \<le> unat i then array v ! (j - 1) else array v ! j)"
      if "j < length a'" for j
      using a'(3)[rule_format, OF that] that a'(2) s pi p0 less.prems(2)
      by (auto simp: nth_list_update)
    moreover have "insert_loop v p i = Some (Inr (v\<lparr>array := a'\<rparr>))"
      using True lt less.prems(2) a'(1) by (subst insert_loop.simps) simp
    ultimately show ?thesis using a'(2) by auto
  qed
qed

text \<open>The vector after the growth step that \<^verbatim>\<open>vector_push_back\<close> and \<^verbatim>\<open>vector_insert\<close>
  share.\<close>

lemma grow_if_full:
  assumes inv: "vector_inv v" and room: "size_v v < capacity v \<or> unat (size_v v) < 2 ^ 60"
  shows "\<exists>v1. (if size_v v = capacity v then vector_reserve v (capacity v + 1)
               else Some (Inr v)) = Some (Inr v1) \<and>
              vector_inv v1 \<and> size_v v1 = size_v v \<and> size_v v1 < capacity v1 \<and>
              elements v1 = elements v \<and> destroyed v1 = destroyed v \<and>
              copy_constructor v1 = copy_constructor v \<and>
              default_constructor v1 = default_constructor v \<and> uninit v1 = uninit v \<and>
              capacity v \<le> capacity v1 \<and>
              (size_v v < capacity v \<longrightarrow> v1 = v) \<and>
              (size_v v = capacity v \<longrightarrow> unat (capacity v1) = 2 * unat (capacity v))"
proof (cases "size_v v = capacity v")
  case False
  moreover have "size_v v \<le> capacity v" using inv by (simp add: vector_inv_def)
  ultimately have "size_v v < capacity v" by simp
  then show ?thesis using inv False by simp
next
  case True
  from vector_inv_capacity[OF inv] obtain k where
    k: "k < 64" "capacity v = 2 ^ k" "unat (capacity v) = 2 ^ k" by blast
  have "(2::nat) ^ k < 2 ^ 60" using room True k by simp
  then have k60: "k < 60" by (rule power_less_imp_less_exp[rotated]) simp
  let ?v1 = "v\<lparr>array := array v @ replicate (2 ^ k) None, capacity := 2 ^ Suc k\<rparr>"
  have uc': "unat ((2::size_t) ^ Suc k) = 2 ^ Suc k" using k60 by (intro unat_pow2) simp
  have len: "length (array v) = unat (capacity v)" using inv by (simp add: vector_inv_def)
  have "power_of_two (2 ^ Suc k)"
    unfolding power_of_two_iff using k60 by (intro exI[of _ "Suc k"]) simp
  then have i: "vector_inv ?v1"
    using True k(3) len uc' by (simp add: vector_inv_def word_le_nat_alt)
  have lt: "size_v ?v1 < capacity ?v1"
    using True k(3) uc' by (simp add: word_less_nat_alt)
  have e: "elements ?v1 = elements v" using True len by (simp add: elements_def)
  have c: "capacity v \<le> capacity ?v1" using k(3) uc' by (simp add: word_le_nat_alt)
  show ?thesis
    using vector_reserve_full[OF inv k60 k(2)] True i lt e c k(3) uc'
    by (intro exI[of _ ?v1]) simp
qed

lemma vector_insert_front:
  assumes inv: "vector_inv v" and room: "size_v v < capacity v \<or> unat (size_v v) < 2 ^ 60"
  shows "vector_insert v 0 x = Some (Inl OutOfBounds)"
proof -
  from grow_if_full[OF inv room] obtain v1 where
    v1: "(if size_v v = capacity v then vector_reserve v (capacity v + 1) else Some (Inr v)) =
           Some (Inr v1)" "vector_inv v1"
    by blast
  have "length (array v1) < 2 ^ 64"
    using v1(2) unsigned_less[of "capacity v1", where ?'a = nat] by (simp add: vector_inv_def)
  then have "insert_loop v1 0 (size_v v1) = Some (Inl OutOfBounds)" by (rule insert_loop_zero)
  then show ?thesis using v1(1) by (simp add: vector_insert_def)
qed

lemma vector_insert_ok:
  assumes inv: "vector_inv v" and room: "size_v v < capacity v \<or> unat (size_v v) < 2 ^ 60"
    and p: "0 < position" "position \<le> size_v v"
  shows "\<exists>v'. vector_insert v position x = Some (Inr v') \<and> vector_inv v' \<and>
              size_v v' = size_v v + 1 \<and> unat (size_v v') = Suc (unat (size_v v)) \<and>
              elements v' = take (unat position) (elements v) @ [copy_of v x] @
                            drop (unat position) (elements v) \<and>
              destroyed v' = destroyed v \<and>
              copy_constructor v' = copy_constructor v \<and>
              default_constructor v' = default_constructor v \<and> uninit v' = uninit v \<and>
              (size_v v < capacity v \<longrightarrow> capacity v' = capacity v) \<and>
              (size_v v = capacity v \<longrightarrow> unat (capacity v') = 2 * unat (capacity v))"
proof -
  from grow_if_full[OF inv room] obtain v1 where
    v1: "(if size_v v = capacity v then vector_reserve v (capacity v + 1) else Some (Inr v)) =
           Some (Inr v1)" "vector_inv v1" "size_v v1 = size_v v" "size_v v1 < capacity v1"
        "elements v1 = elements v" "destroyed v1 = destroyed v"
        "copy_constructor v1 = copy_constructor v"
        "default_constructor v1 = default_constructor v" "uninit v1 = uninit v"
        "size_v v < capacity v \<longrightarrow> v1 = v"
        "size_v v = capacity v \<longrightarrow> unat (capacity v1) = 2 * unat (capacity v)"
    by blast
  have len: "length (array v1) = unat (capacity v1)" using v1(2) by (simp add: vector_inv_def)
  have sl: "unat (size_v v1) < length (array v1)" using v1(4) len by (simp add: word_less_nat_alt)
  from insert_loop_ok[OF p(1) sl] obtain a' where
    a': "insert_loop v1 position (size_v v1) = Some (Inr (v1\<lparr>array := a'\<rparr>))"
        "length a' = length (array v1)"
        "\<forall>j<length a'. a' ! j =
           (if unat position \<le> j \<and> j \<le> unat (size_v v1) then array v1 ! (j - 1)
            else array v1 ! j)"
    by blast
  have ps: "unat position \<le> unat (size_v v)" using p(2) by (simp add: word_le_nat_alt)
  have us: "unat (size_v v + 1) = Suc (unat (size_v v))"
    using inv by (rule vector_inv_size_Suc)
  let ?v' = "v1\<lparr>array := a'[unat position := copy_of v1 x], size_v := size_v v1 + 1\<rparr>"
  have r: "vector_insert v position x = Some (Inr ?v')"
    using v1(1) a'(1,2) ps sl v1(3) by (simp add: vector_insert_def)
  have i: "vector_inv ?v'"
    using v1(2,3,4) a'(2) us by (simp add: vector_inv_def word_le_nat_alt word_less_nat_alt)
  have c: "copy_of v1 x = copy_of v x" using v1(7) by (rule copy_of_cong)
  have e1: "elements v = take (unat (size_v v)) (array v1)"
    using v1(5,3) by (simp add: elements_def)
  have len_e: "length (elements v) = unat (size_v v)"
    using sl v1(3) unfolding e1 by simp
  have nth_e: "elements v ! j = array v1 ! j" if "j < unat (size_v v)" for j
    using that unfolding e1 by simp
  have ev': "elements ?v' = take (Suc (unat (size_v v))) (a'[unat position := copy_of v x])"
    using us v1(3) c by (simp add: elements_def)
  have e: "elements ?v' = take (unat position) (elements v) @ [copy_of v x] @
                          drop (unat position) (elements v)"
  proof (rule nth_equalityI)
    show "length (elements ?v') =
          length (take (unat position) (elements v) @ [copy_of v x] @
                  drop (unat position) (elements v))"
      using sl a'(2) ps v1(3) len_e unfolding ev' by simp
  next
    fix j assume "j < length (elements ?v')"
    then have j: "j < Suc (unat (size_v v))"
      using sl a'(2) v1(3) unfolding ev' by simp
    then have jl: "j < length a'" using sl a'(2) v1(3) by simp
    consider "j < unat position" | "j = unat position" | "unat position < j" by linarith
    then show "elements ?v' ! j =
          (take (unat position) (elements v) @ [copy_of v x] @
           drop (unat position) (elements v)) ! j"
    proof cases
      case 1
      then show ?thesis
        using a'(3)[rule_format, OF jl] j ps jl len_e nth_e[of j] unfolding ev'
        by (simp add: nth_append)
    next
      case 2
      then show ?thesis
        using j ps jl len_e unfolding ev' by (simp add: nth_append)
    next
      case 3
      then obtain m where m: "j = Suc (unat position + m)"
        using less_imp_Suc_add by blast
      have "unat position + m < unat (size_v v)" using j m by simp
      then show ?thesis
        using a'(3)[rule_format, OF jl] ps jl len_e nth_e[of "unat position + m"] v1(3)
        unfolding ev' m by (simp add: nth_append)
    qed
  qed
  have cap: "capacity ?v' = capacity v1" by simp
  show ?thesis
    using r i e us v1 by (intro exI[of _ ?v']) auto
qed

section \<open>Resizing and assigning\<close>

lemma destructor_simps [simp]:
  "array (destructor v p) = array v"
  "size_v (destructor v p) = size_v v"
  "capacity (destructor v p) = capacity v"
  "destroyed (destructor v p) = destroyed v @ [p]"
  "copy_constructor (destructor v p) = copy_constructor v"
  "default_constructor (destructor v p) = default_constructor v"
  "uninit (destructor v p) = uninit v"
  by (simp_all add: destructor_def)

lemma resize_grow_room:
  assumes "length (array v) = unat (capacity v)" "n \<le> capacity v" "size_v v \<le> n"
  shows "resize_grow v n =
           Some (Inr (v\<lparr>array := take (unat (size_v v)) (array v) @
                                  replicate (unat n - unat (size_v v))
                                    (copy_of v (default_constructor v ())) @
                                  drop (unat n) (array v),
                         size_v := n,
                         destroyed := destroyed v @
                                      replicate (unat n - unat (size_v v))
                                        (default_constructor v ())\<rparr>))"
  using assms
proof (induction "unat n - unat (size_v v)" arbitrary: v)
  case 0
  then have "unat (size_v v) = unat n" by (simp add: word_le_nat_alt)
  then have eq: "size_v v = n" by (simp only: word_unat_eq_iff)
  then have "resize_grow v n = Some (Inr v)" by (subst resize_grow.simps) simp
  then show ?case using eq by simp
next
  case (Suc m)
  let ?d = "default_constructor v ()"
  let ?c = "copy_of v ?d"
  let ?s = "unat (size_v v)"
  have lt: "size_v v < n" using Suc.hyps(2) by (simp add: word_less_nat_alt)
  then have ltc: "size_v v < capacity v" using Suc.prems(2) by simp
  have sn: "?s < unat n" "unat n \<le> length (array v)"
    using lt Suc.prems(1,2) by (simp_all add: word_less_nat_alt word_le_nat_alt)
  have us: "unat (size_v v + 1) = Suc ?s" using lt by (rule unat_Suc_less)
  let ?v1 = "v\<lparr>array := (array v)[?s := ?c], size_v := size_v v + 1\<rparr>"
  let ?v2 = "destructor ?v1 ?d"
  have pb: "vector_push_back v ?d = Some (Inr ?v1)"
    using ltc Suc.prems(1) by (rule vector_push_back_room)
  have m: "m = unat n - unat (size_v ?v2)" using Suc.hyps(2) us by simp
  have p2: "length (array ?v2) = unat (capacity ?v2)" "n \<le> capacity ?v2" "size_v ?v2 \<le> n"
    using Suc.prems sn us by (simp_all add: word_le_nat_alt)
  have t: "take (Suc ?s) ((array v)[?s := ?c]) = take ?s (array v) @ [?c]"
    using sn by (simp add: take_Suc_conv_app_nth)
  have r: "replicate (unat n - ?s) x = x # replicate (unat n - Suc ?s) x" for x :: "'a option"
    using sn by (cases "unat n - ?s") (auto simp: Suc_diff_Suc)
  have c2: "copy_of ?v2 ?d = ?c" by (rule copy_of_cong) simp
  have "resize_grow v n = resize_grow ?v2 n"
    using lt pb by (subst resize_grow.simps) simp
  also have "\<dots> = Some (Inr (?v2\<lparr>array := take (unat (size_v ?v2)) (array ?v2) @
                                  replicate (unat n - unat (size_v ?v2))
                                    (copy_of ?v2 (default_constructor ?v2 ())) @
                                  drop (unat n) (array ?v2),
                         size_v := n,
                         destroyed := destroyed ?v2 @
                                      replicate (unat n - unat (size_v ?v2))
                                        (default_constructor ?v2 ())\<rparr>))"
    using m p2 by (rule Suc.hyps(1))
  also have "\<dots> = Some (Inr (v\<lparr>array := take ?s (array v) @ replicate (unat n - ?s) ?c @
                                  drop (unat n) (array v),
                         size_v := n,
                         destroyed := destroyed v @ replicate (unat n - ?s) ?d\<rparr>))"
    using sn unfolding c2 by (simp add: us t r[of ?c] r[of ?d] destructor_def)
  finally show ?case .
qed

lemma resize_shrink_ok:
  "i \<le> size_v v \<Longrightarrow> unat (size_v v) \<le> length (array v) \<Longrightarrow>
   resize_shrink v i =
     Inr (v\<lparr>array := take (unat i) (array v) @
                      replicate (unat (size_v v) - unat i) None @
                      drop (unat (size_v v)) (array v),
             destroyed := destroyed v @
                          take (unat (size_v v) - unat i) (drop (unat i) (array v))\<rparr>)"
proof (induction v i rule: resize_shrink.induct)
  case (1 v i)
  show ?case
  proof (cases "i < size_v v")
    case False
    with 1(2) have "i = size_v v" by simp
    then show ?thesis by (subst resize_shrink.simps) simp
  next
    case True
    let ?s = "unat (size_v v)"
    have lt: "unat i < ?s" using True by (simp add: word_less_nat_alt)
    have inb: "unat i < length (array v)" using lt 1(3) by simp
    have s: "unat (i + 1) = Suc (unat i)" using True by (rule unat_Suc_less)
    let ?v1 = "(destructor v (array v ! unat i))\<lparr>array := (array v)[unat i := None]\<rparr>"
    have p1: "i + 1 \<le> size_v ?v1" "unat (size_v ?v1) \<le> length (array ?v1)"
      using lt s 1(3) by (simp_all add: word_le_nat_alt)
    have ih: "resize_shrink ?v1 (i + 1) =
      Inr (?v1\<lparr>array := take (unat (i + 1)) (array ?v1) @
                      replicate (unat (size_v ?v1) - unat (i + 1)) None @
                      drop (unat (size_v ?v1)) (array ?v1),
             destroyed := destroyed ?v1 @
                          take (unat (size_v ?v1) - unat (i + 1))
                            (drop (unat (i + 1)) (array ?v1))\<rparr>)"
      using 1(1)[OF True inb p1] .
    have t: "take (Suc (unat i)) ((array v)[unat i := None]) = take (unat i) (array v) @ [None]"
      using inb by (simp add: take_Suc_conv_app_nth)
    have r: "replicate (?s - unat i) (None::'a option) = None # replicate (?s - Suc (unat i)) None"
      using lt by (cases "?s - unat i") (auto simp: Suc_diff_Suc)
    have d: "take (?s - unat i) (drop (unat i) (array v)) =
             array v ! unat i # take (?s - Suc (unat i)) (drop (Suc (unat i)) (array v))"
    proof -
      have a: "?s - unat i = Suc (?s - Suc (unat i))" using lt by simp
      have b: "drop (unat i) (array v) = array v ! unat i # drop (Suc (unat i)) (array v)"
        using inb by (rule Cons_nth_drop_Suc[symmetric])
      show ?thesis unfolding a b by simp
    qed
    have "resize_shrink v i = resize_shrink ?v1 (i + 1)"
      using True inb by (subst resize_shrink.simps) simp
    also note ih
    also have "Inr (?v1\<lparr>array := take (unat (i + 1)) (array ?v1) @
                      replicate (unat (size_v ?v1) - unat (i + 1)) None @
                      drop (unat (size_v ?v1)) (array ?v1),
             destroyed := destroyed ?v1 @
                          take (unat (size_v ?v1) - unat (i + 1))
                            (drop (unat (i + 1)) (array ?v1))\<rparr>) =
       (Inr (v\<lparr>array := take (unat i) (array v) @
                      replicate (unat (size_v v) - unat i) None @
                      drop (unat (size_v v)) (array v),
             destroyed := destroyed v @
                          take (unat (size_v v) - unat i) (drop (unat i) (array v))\<rparr>)
          :: error + 'a vector)"
      using lt by (simp add: s t r d destructor_def)
    finally show ?thesis .
  qed
qed

lemma vector_resize_ok:
  assumes inv: "vector_inv v" and n: "n \<le> capacity v \<or> unat n \<le> 2 ^ 60"
  shows "\<exists>v'. vector_resize v n = Some (Inr v') \<and> vector_inv v' \<and> size_v v' = n \<and>
           (capacity v < n \<longrightarrow>
              (\<exists>k<64. unat (capacity v') = 2 ^ k \<and> unat n \<le> 2 ^ k \<and>
                      (\<forall>i<k. 2 ^ i < unat n))) \<and>
           (n \<le> capacity v \<longrightarrow> capacity v' = capacity v) \<and>
           (size_v v < n \<longrightarrow>
              elements v' = elements v @
                replicate (unat n - unat (size_v v)) (copy_of v (default_constructor v ())) \<and>
              destroyed v' = destroyed v @
                replicate (unat n - unat (size_v v)) (default_constructor v ())) \<and>
           (n < size_v v \<longrightarrow>
              elements v' = take (unat n) (elements v) \<and>
              destroyed v' = destroyed v @ drop (unat n) (elements v) \<and>
              (\<forall>j. unat n \<le> j \<and> j < unat (size_v v) \<longrightarrow> array v' ! j = None)) \<and>
           (n = size_v v \<longrightarrow> v' = v) \<and>
           copy_constructor v' = copy_constructor v \<and>
           default_constructor v' = default_constructor v \<and> uninit v' = uninit v"
proof -
  from vector_reserve_ok[OF inv n] obtain v1 where
    v1: "vector_reserve v n = Some (Inr v1)" "vector_inv v1" "n \<le> capacity v \<longrightarrow> v1 = v"
        "capacity v < n \<longrightarrow>
           (\<exists>k<64. unat (capacity v1) = 2 ^ k \<and> unat n \<le> 2 ^ k \<and> (\<forall>i<k. 2 ^ i < unat n))"
        "n \<le> capacity v1" "size_v v1 = size_v v" "elements v1 = elements v"
        "destroyed v1 = destroyed v" "copy_constructor v1 = copy_constructor v"
        "default_constructor v1 = default_constructor v" "uninit v1 = uninit v"
    by blast
  have r1: "(if n > capacity v then vector_reserve v n else Some (Inr v)) = Some (Inr v1)"
    using v1(1,3) by (auto simp: not_less)
  have len: "length (array v1) = unat (capacity v1)" and sc: "size_v v1 \<le> capacity v1"
    and pw: "power_of_two (capacity v1)"
    using v1(2) by (simp_all add: vector_inv_def)
  have nl: "unat n \<le> length (array v1)" using v1(5) len by (simp add: word_le_nat_alt)
  have sl: "unat (size_v v1) \<le> length (array v1)" using sc len by (simp add: word_le_nat_alt)
  have cle: "size_v v \<le> capacity v" using inv by (simp add: vector_inv_def)
  let ?s = "unat (size_v v1)"
  consider (grow) "size_v v1 < n" | (shrink) "n < size_v v1" | (same) "n = size_v v1"
    by (metis not_less_iff_gr_or_eq)
  then show ?thesis
  proof cases
    case grow
    let ?c = "copy_of v1 (default_constructor v1 ())"
    let ?v' = "v1\<lparr>array := take ?s (array v1) @ replicate (unat n - ?s) ?c @
                            drop (unat n) (array v1),
                   size_v := n,
                   destroyed := destroyed v1 @
                                replicate (unat n - ?s) (default_constructor v1 ())\<rparr>"
    have le: "size_v v1 \<le> n" using grow by simp
    have sn: "?s < unat n" using grow by (simp add: word_less_nat_alt)
    have r: "vector_resize v n = Some (Inr ?v')"
      using r1 grow resize_grow_room[OF len v1(5) le] by (simp add: vector_resize_def)
    have i: "vector_inv ?v'"
      using pw v1(5) len sn nl by (simp add: vector_inv_def)
    have c: "?c = copy_of v (default_constructor v ())"
      using v1(9,10) copy_of_cong[OF v1(9)] by simp
    have e: "elements ?v' = elements v1 @ replicate (unat n - ?s) ?c"
      using sn nl by (simp add: elements_def)
    show ?thesis
      using r i e c v1 grow by (intro exI[of _ ?v']) auto
  next
    case shrink
    then have nc: "n \<le> capacity v" using cle v1(6) by simp
    then have vv: "v1 = v" using v1(3) by simp
    let ?v' = "v1\<lparr>array := take (unat n) (array v1) @ replicate (?s - unat n) None @
                            drop ?s (array v1),
                   destroyed := destroyed v1 @ take (?s - unat n) (drop (unat n) (array v1)),
                   size_v := n\<rparr>"
    have le: "n \<le> size_v v1" using shrink by simp
    have ns: "unat n < ?s" using shrink by (simp add: word_less_nat_alt)
    have ng: "\<not> size_v v1 < n" using shrink by simp
    have r: "vector_resize v n = Some (Inr ?v')"
      using r1 shrink ng resize_shrink_ok[OF le sl] by (simp add: vector_resize_def)
    have i: "vector_inv ?v'"
      using pw sc shrink len ns sl by (simp add: vector_inv_def)
    have e: "elements ?v' = take (unat n) (elements v1)"
      using ns sl by (simp add: elements_def min_def)
    have d: "take (?s - unat n) (drop (unat n) (array v1)) = drop (unat n) (elements v1)"
      by (simp add: elements_def drop_take)
    have z: "array ?v' ! j = None" if "unat n \<le> j" "j < ?s" for j
    proof -
      have "j - unat n < ?s - unat n" using that by simp
      then show ?thesis using that sl ns by (simp add: nth_append)
    qed
    show ?thesis
      using r i e d z shrink nc v1(6)
      by (intro exI[of _ ?v']) (auto simp: vv)
  next
    case same
    then have nc: "n \<le> capacity v" using cle v1(6) by simp
    then have vv: "v1 = v" using v1(3) by simp
    have "\<not> capacity v < n" using nc by simp
    then have "vector_resize v n = Some (Inr v)"
      using same v1(6) by (simp add: vector_resize_def)
    then show ?thesis using inv same nc unfolding vv by auto
  qed
qed

lemma vector_resize_full:
  "size_v v = capacity v \<Longrightarrow> vector_resize v (size_v v) = Some (Inr v)"
  by (simp add: vector_resize_def)

lemma vector_set_beyond:
  "size_v v < position \<Longrightarrow> vector_set v position x = Some (Inr v)"
  by (simp add: vector_set_def)

lemma vector_set_overwrite:
  assumes "vector_inv v" "position < size_v v"
  shows "vector_set v position x =
           Some (Inr (v\<lparr>destroyed := destroyed v @ [array v ! unat position],
                         array := (array v)[unat position := copy_of v x]\<rparr>))"
proof -
  have "unat position < length (array v)"
    using assms by (simp add: vector_inv_def word_less_nat_alt word_le_nat_alt)
  moreover have "\<not> size_v v < position" using assms(2) by simp
  ultimately show ?thesis using assms(2) by (simp add: vector_set_def destructor_def)
qed

lemma vector_set_append:
  assumes "vector_inv v" "size_v v < capacity v"
  shows "vector_set v (size_v v) x =
           Some (Inr (v\<lparr>array := (array v)[unat (size_v v) := copy_of v x],
                         size_v := size_v v + 1\<rparr>))"
proof -
  have "unat (size_v v) < length (array v)"
    using assms by (simp add: vector_inv_def word_less_nat_alt)
  moreover have "size_v v \<noteq> capacity v" using assms(2) by simp
  ultimately show ?thesis by (simp add: vector_set_def)
qed

lemma vector_set_full:
  assumes "vector_inv v" "size_v v = capacity v"
  shows "vector_set v (size_v v) x = Some (Inl OutOfBounds)"
proof -
  have "length (array v) = unat (size_v v)" using assms by (simp add: vector_inv_def)
  then show ?thesis
    using assms(2) vector_resize_full[OF assms(2)] by (simp add: vector_set_def)
qed

text \<open>
  C6, as the code has it. For \<^verbatim>\<open>n <= 2^60\<close>, \<^verbatim>\<open>vector_resize(v, n)\<close> returns with
  \<^verbatim>\<open>size == n\<close>. If \<^verbatim>\<open>n > capacity\<close> the capacity becomes the smallest power of two that
  is at least \<^verbatim>\<open>n\<close>, otherwise it is unchanged. If \<^verbatim>\<open>n > size\<close> the old elements stay and
  \<^verbatim>\<open>n - size\<close> copies of a default-constructed element are appended (\<^verbatim>\<open>NULL\<close> when the
  default constructor returns \<^verbatim>\<open>NULL\<close>): the new slots hold the copies, and the destructor
  is called \<^verbatim>\<open>n - size\<close> times, each time on the default-constructed element. If
  \<^verbatim>\<open>n < size\<close> the elements at \<^verbatim>\<open>[n, size)\<close> are passed to the destructor in order and
  their slots cleared, and the elements before \<^verbatim>\<open>n\<close> stay. If \<^verbatim>\<open>n == size\<close> nothing changes.
\<close>

theorem resize_size:
  assumes "vector_inv v" "unat n \<le> 2 ^ 60"
  shows "\<exists>v'. vector_resize v n = Some (Inr v') \<and> vector_size v' = n \<and>
           (vector_capacity v < n \<longrightarrow>
              (\<exists>k<64. unat (vector_capacity v') = 2 ^ k \<and> unat n \<le> 2 ^ k \<and>
                      (\<forall>i<k. 2 ^ i < unat n))) \<and>
           (n \<le> vector_capacity v \<longrightarrow> vector_capacity v' = vector_capacity v) \<and>
           (vector_size v < n \<longrightarrow>
              elements v' = elements v @
                replicate (unat n - unat (vector_size v))
                  (copy_of v (default_constructor v ())) \<and>
              destroyed v' = destroyed v @
                replicate (unat n - unat (vector_size v)) (default_constructor v ())) \<and>
           (n < vector_size v \<longrightarrow>
              elements v' = take (unat n) (elements v) \<and>
              destroyed v' = destroyed v @ drop (unat n) (elements v) \<and>
              (\<forall>j. unat n \<le> j \<and> j < unat (vector_size v) \<longrightarrow> array v' ! j = None)) \<and>
           (n = vector_size v \<longrightarrow> v' = v)"
proof -
  have "n \<le> capacity v \<or> unat n \<le> 2 ^ 60" using assms(2) by simp
  from vector_resize_ok[OF assms(1) this] show ?thesis
    unfolding vector_capacity_def vector_size_def by blast
qed

text \<open>
  The claim C6 as stated fails in two ways. Growing a fresh vector, whose default element
  is \<^verbatim>\<open>0\<close> and whose copy is the successor, to size 2 leaves the two new slots holding the
  copies \<^verbatim>\<open>1\<close>, not empty slots, and the destructor was called on the two elements
  \<^verbatim>\<open>0\<close>. And the call does not end with \<^verbatim>\<open>size == n\<close> for every \<^verbatim>\<open>n\<close>: at
  \<^verbatim>\<open>n = 2^60 + 1\<close> it leaves the block that \<^verbatim>\<open>realloc\<close> granted for 0 bytes, and at
  \<^verbatim>\<open>n = 2^63 + 1\<close> it does not return.
\<close>

theorem resize_size_counterexample:
  "outcome (run_new Suc (\<lambda>_. Some 0) None [Resize 2]) =
     Some (Inr ([Some 1, Some 1, None, None, None, None, None, None], 2, 8,
                [Some 0, Some 0])) \<and>
   outcome (run_new Suc (\<lambda>_. Some 0) None [Resize 1152921504606846977]) =
     Some (Inl OutOfBounds) \<and>
   outcome (run_new Suc (\<lambda>_. Some 0) None [Resize 9223372036854775809]) = None"
proof -
  let ?v = "\<lparr>copy_constructor = Suc, default_constructor = (\<lambda>_. Some 0),
             array = replicate 8 None, size_v = 0, capacity = 8, destroyed = [],
             uninit = None\<rparr>"
  have a: "outcome (run_new Suc (\<lambda>_. Some 0) None [Resize 2]) =
     Some (Inr ([Some 1, Some 1, None, None, None, None, None, None], 2, 8,
                [Some 0, Some 0]))"
    by code_simp
  have "capacity ?v < 1152921504606846977"
       "2 ^ 60 < unat (1152921504606846977 :: size_t)"
       "unat (1152921504606846977 :: size_t) \<le> 2 ^ 63"
    by simp_all
  then have "vector_reserve ?v 1152921504606846977 = Some (Inl OutOfBounds)"
    by (rule vector_reserve_wrap)
  then have b: "outcome (run_new Suc (\<lambda>_. Some 0) None [Resize 1152921504606846977]) =
     Some (Inl OutOfBounds)"
    by (simp add: run_new_def vector_create_eq vector_resize_def outcome_def result_of_def)
  have "(2::nat) ^ 63 < unat (9223372036854775809 :: size_t)" by simp
  then have "get_new_capacity (9223372036854775809 :: size_t) = None"
    by (rule get_new_capacity_None)
  then have c: "outcome (run_new Suc (\<lambda>_. Some 0) None [Resize 9223372036854775809]) = None"
    by (simp add: run_new_def vector_create_eq vector_resize_def vector_reserve_def outcome_def)
  from a b c show ?thesis by blast
qed

theorem resize_size_witness:
  "vector_inv \<lparr>copy_constructor = Suc, default_constructor = (\<lambda>_. Some 0),
       array = [Some 5, Some 6, Some 7, None, None, None, None, None],
       size_v = 3, capacity = 8, destroyed = [], uninit = None\<rparr> \<and>
   unat (5::size_t) \<le> 2 ^ 60 \<and> unat (1::size_t) \<le> 2 ^ 60 \<and>
   unat (3::size_t) \<le> 2 ^ 60 \<and> unat (9::size_t) \<le> 2 ^ 60 \<and>
   (\<exists>v'. vector_resize \<lparr>copy_constructor = Suc, default_constructor = (\<lambda>_. Some 0),
       array = [Some 5, Some 6, Some 7, None, None, None, None, None],
       size_v = 3, capacity = 8, destroyed = [], uninit = None\<rparr> 5 = Some (Inr v') \<and>
     vector_size v' = 5 \<and> vector_capacity v' = 8 \<and>
     elements v' = [Some 5, Some 6, Some 7, Some 1, Some 1] \<and>
     destroyed v' = [Some 0, Some 0]) \<and>
   (\<exists>v'. vector_resize \<lparr>copy_constructor = Suc, default_constructor = (\<lambda>_. Some 0),
       array = [Some 5, Some 6, Some 7, None, None, None, None, None],
       size_v = 3, capacity = 8, destroyed = [], uninit = None\<rparr> 1 = Some (Inr v') \<and>
     vector_size v' = 1 \<and> vector_capacity v' = 8 \<and>
     elements v' = [Some 5] \<and> destroyed v' = [Some 6, Some 7] \<and>
     array v' ! 1 = None \<and> array v' ! 2 = None) \<and>
   vector_resize \<lparr>copy_constructor = Suc, default_constructor = (\<lambda>_. Some 0),
       array = [Some 5, Some 6, Some 7, None, None, None, None, None],
       size_v = 3, capacity = 8, destroyed = [], uninit = None\<rparr> 3 =
     Some (Inr \<lparr>copy_constructor = Suc, default_constructor = (\<lambda>_. Some 0),
       array = [Some 5, Some 6, Some 7, None, None, None, None, None],
       size_v = 3, capacity = 8, destroyed = [], uninit = None\<rparr>) \<and>
   (\<exists>v'. vector_resize \<lparr>copy_constructor = Suc, default_constructor = (\<lambda>_. Some 0),
       array = [Some 5, Some 6, Some 7, None, None, None, None, None],
       size_v = 3, capacity = 8, destroyed = [], uninit = None\<rparr> 9 = Some (Inr v') \<and>
     vector_size v' = 9 \<and> vector_capacity v' = 16 \<and>
     elements v' = [Some 5, Some 6, Some 7, Some 1, Some 1, Some 1, Some 1, Some 1, Some 1])"
proof -
  let ?v = "\<lparr>copy_constructor = Suc, default_constructor = (\<lambda>_. Some 0),
       array = [Some 5, Some 6, Some 7, None, None, None, None, None],
       size_v = 3, capacity = 8, destroyed = [], uninit = None\<rparr>"
  have "power_of_two (8::size_t)"
    unfolding power_of_two_iff by (intro exI[of _ 3]) simp
  then have h: "vector_inv ?v" by (simp add: vector_inv_def)
  have n5: "unat (5::size_t) \<le> 2 ^ 60" and n1: "unat (1::size_t) \<le> 2 ^ 60"
    and n3: "unat (3::size_t) \<le> 2 ^ 60" and n9: "unat (9::size_t) \<le> 2 ^ 60" by simp_all
  have r2: "replicate 2 x = [x, x]" for x :: "nat option" by (simp add: numeral_2_eq_2)
  have r6: "replicate 6 x = [x, x, x, x, x, x]" for x :: "nat option"
    by (simp add: eval_nat_numeral)
  from resize_size[OF h n5] obtain v5 where
    "vector_resize ?v 5 = Some (Inr v5)" "vector_size v5 = 5"
    "vector_capacity v5 = vector_capacity ?v"
    "elements v5 = elements ?v @
       replicate (unat (5::size_t) - unat (vector_size ?v)) (copy_of ?v (default_constructor ?v ()))"
    "destroyed v5 = destroyed ?v @
       replicate (unat (5::size_t) - unat (vector_size ?v)) (default_constructor ?v ())"
    by (auto simp: vector_size_def vector_capacity_def)
  then have a: "\<exists>v'. vector_resize ?v 5 = Some (Inr v') \<and>
     vector_size v' = 5 \<and> vector_capacity v' = 8 \<and>
     elements v' = [Some 5, Some 6, Some 7, Some 1, Some 1] \<and>
     destroyed v' = [Some 0, Some 0]"
    by (intro exI[of _ v5])
       (simp add: vector_size_def vector_capacity_def elements_def copy_of_def r2)
  from resize_size[OF h n1] obtain v1 where
    v1: "vector_resize ?v 1 = Some (Inr v1)" "vector_size v1 = 1"
    "vector_capacity v1 = vector_capacity ?v"
    "elements v1 = take (unat (1::size_t)) (elements ?v)"
    "destroyed v1 = destroyed ?v @ drop (unat (1::size_t)) (elements ?v)"
    "\<forall>j. unat (1::size_t) \<le> j \<and> j < unat (vector_size ?v) \<longrightarrow> array v1 ! j = None"
    by (auto simp: vector_size_def vector_capacity_def)
  have "array v1 ! 1 = None" "array v1 ! 2 = None"
    using v1(6)[rule_format, of 1] v1(6)[rule_format, of 2] by (simp_all add: vector_size_def)
  with v1 have b: "\<exists>v'. vector_resize ?v 1 = Some (Inr v') \<and>
     vector_size v' = 1 \<and> vector_capacity v' = 8 \<and>
     elements v' = [Some 5] \<and> destroyed v' = [Some 6, Some 7] \<and>
     array v' ! 1 = None \<and> array v' ! 2 = None"
    by (intro exI[of _ v1])
       (simp add: vector_size_def vector_capacity_def elements_def)
  from resize_size[OF h n3] have c: "vector_resize ?v 3 = Some (Inr ?v)"
    by (auto simp: vector_size_def)
  from resize_size[OF h n9] obtain v9 k where
    v9: "vector_resize ?v 9 = Some (Inr v9)" "vector_size v9 = 9"
    "elements v9 = elements ?v @
       replicate (unat (9::size_t) - unat (vector_size ?v)) (copy_of ?v (default_constructor ?v ()))"
    and k: "k < 64" "unat (vector_capacity v9) = 2 ^ k" "unat (9::size_t) \<le> 2 ^ k"
       "\<forall>i<k. (2::nat) ^ i < unat (9::size_t)"
    by (auto simp: vector_size_def vector_capacity_def)
  have "\<not> 4 < k" using k(4) by auto
  moreover have "\<not> k < 4"
  proof
    assume "k < 4"
    then have "(2::nat) ^ k \<le> 2 ^ 3" by (intro power_increasing) auto
    with k(3) show False by simp
  qed
  ultimately have "k = 4" by simp
  then have "unat (vector_capacity v9) = unat (16::size_t)" using k(2) by simp
  then have cap: "vector_capacity v9 = 16" by (simp only: word_unat_eq_iff)
  have d: "\<exists>v'. vector_resize ?v 9 = Some (Inr v') \<and>
     vector_size v' = 9 \<and> vector_capacity v' = 16 \<and>
     elements v' = [Some 5, Some 6, Some 7, Some 1, Some 1, Some 1, Some 1, Some 1, Some 1]"
    using v9 cap
    by (intro exI[of _ v9]) (simp add: vector_size_def elements_def copy_of_def r6)
  from h n5 n1 n3 n9 a b c d show ?thesis by blast
qed

section \<open>Clearing\<close>

lemma clear_loop_ok:
  "i \<le> size_v v \<Longrightarrow> unat (size_v v) \<le> length (array v) \<Longrightarrow>
   clear_loop v i =
     Inr (v\<lparr>array := take (unat i) (array v) @
                      replicate (unat (size_v v) - unat i) None @
                      drop (unat (size_v v)) (array v),
             destroyed := destroyed v @
                          filter (\<lambda>p. p \<noteq> None)
                            (take (unat (size_v v) - unat i) (drop (unat i) (array v)))\<rparr>)"
proof (induction v i rule: clear_loop.induct)
  case (1 v i)
  show ?case
  proof (cases "i < size_v v")
    case False
    with 1(3) have "i = size_v v" by simp
    then show ?thesis by (subst clear_loop.simps) simp
  next
    case True
    let ?s = "unat (size_v v)"
    have lt: "unat i < ?s" using True by (simp add: word_less_nat_alt)
    have inb: "unat i < length (array v)" using lt 1(4) by simp
    have s: "unat (i + 1) = Suc (unat i)" using True by (rule unat_Suc_less)
    have le: "i + 1 \<le> size_v v" using lt s by (simp add: word_le_nat_alt)
    have r: "replicate (?s - unat i) (None::'a option) = None # replicate (?s - Suc (unat i)) None"
      using lt by (cases "?s - unat i") (auto simp: Suc_diff_Suc)
    have d: "take (?s - unat i) (drop (unat i) (array v)) =
             array v ! unat i # take (?s - Suc (unat i)) (drop (Suc (unat i)) (array v))"
    proof -
      have a: "?s - unat i = Suc (?s - Suc (unat i))" using lt by simp
      have b: "drop (unat i) (array v) = array v ! unat i # drop (Suc (unat i)) (array v)"
        using inb by (rule Cons_nth_drop_Suc[symmetric])
      show ?thesis unfolding a b by simp
    qed
    show ?thesis
    proof (cases "array v ! unat i")
      case None
      have t: "take (Suc (unat i)) (array v) = take (unat i) (array v) @ [None]"
        using inb None by (simp add: take_Suc_conv_app_nth)
      have "clear_loop v i = clear_loop v (i + 1)"
        using True inb None by (subst clear_loop.simps) simp
      also have "\<dots> = Inr (v\<lparr>array := take (unat (i + 1)) (array v) @
                      replicate (?s - unat (i + 1)) None @ drop ?s (array v),
             destroyed := destroyed v @
                          filter (\<lambda>p. p \<noteq> None)
                            (take (?s - unat (i + 1)) (drop (unat (i + 1)) (array v)))\<rparr>)"
        using 1(1)[OF True inb None le 1(4)] .
      also have "\<dots> = Inr (v\<lparr>array := take (unat i) (array v) @
                      replicate (?s - unat i) None @ drop ?s (array v),
             destroyed := destroyed v @
                          filter (\<lambda>p. p \<noteq> None)
                            (take (?s - unat i) (drop (unat i) (array v)))\<rparr>)"
        using None by (simp add: s t r d)
      finally show ?thesis .
    next
      case (Some p)
      let ?v1 = "(destructor v (Some p))\<lparr>array := (array v)[unat i := None]\<rparr>"
      have t: "take (Suc (unat i)) ((array v)[unat i := None]) = take (unat i) (array v) @ [None]"
        using inb by (simp add: take_Suc_conv_app_nth)
      have p1: "i + 1 \<le> size_v ?v1" "unat (size_v ?v1) \<le> length (array ?v1)"
        using le 1(4) by simp_all
      have "clear_loop v i = clear_loop ?v1 (i + 1)"
        using True inb Some by (subst clear_loop.simps) simp
      also have "\<dots> = Inr (?v1\<lparr>array := take (unat (i + 1)) (array ?v1) @
                      replicate (unat (size_v ?v1) - unat (i + 1)) None @
                      drop (unat (size_v ?v1)) (array ?v1),
             destroyed := destroyed ?v1 @
                          filter (\<lambda>p. p \<noteq> None)
                            (take (unat (size_v ?v1) - unat (i + 1))
                               (drop (unat (i + 1)) (array ?v1)))\<rparr>)"
        using 1(2)[OF True inb Some p1] .
      also have "\<dots> = Inr (v\<lparr>array := take (unat i) (array v) @
                      replicate (?s - unat i) None @ drop ?s (array v),
             destroyed := destroyed v @
                          filter (\<lambda>p. p \<noteq> None)
                            (take (?s - unat i) (drop (unat i) (array v)))\<rparr>)"
        using Some lt by (simp add: s t r d destructor_def)
      finally show ?thesis .
    qed
  qed
qed

lemma vector_clear_ok:
  assumes "vector_inv v"
  shows "vector_clear v =
           Inr (v\<lparr>array := replicate (unat (size_v v)) None @ drop (unat (size_v v)) (array v),
                   destroyed := destroyed v @ filter (\<lambda>p. p \<noteq> None) (elements v),
                   size_v := 0\<rparr>)"
proof -
  have "unat (size_v v) \<le> length (array v)"
    using assms by (simp add: vector_inv_def word_le_nat_alt)
  then show ?thesis
    using clear_loop_ok[of 0 v] by (simp add: vector_clear_def elements_def)
qed

section \<open>The invariant along a run\<close>

text \<open>A call that returns leaves the invariant in place. The calls that break it are the
  ones that leave the allocated slots, or never return.\<close>

lemma vector_insert_beyond:
  assumes inv: "vector_inv v" and room: "size_v v < capacity v \<or> unat (size_v v) < 2 ^ 60"
    and p: "size_v v < position" and r: "vector_insert v position x = Some (Inr v')"
  shows "vector_inv v'"
proof -
  from grow_if_full[OF inv room] obtain v1 where
    v1: "(if size_v v = capacity v then vector_reserve v (capacity v + 1) else Some (Inr v)) =
           Some (Inr v1)" "vector_inv v1" "size_v v1 = size_v v" "size_v v1 < capacity v1"
    by blast
  have "\<not> position \<le> size_v v1" using p v1(3) by simp
  then have l: "insert_loop v1 position (size_v v1) = Some (Inr v1)"
    by (subst insert_loop.simps) simp
  have us: "unat (size_v v + 1) = Suc (unat (size_v v))"
    using inv by (rule vector_inv_size_Suc)
  have "v' = v1\<lparr>array := (array v1)[unat position := copy_of v1 x], size_v := size_v v1 + 1\<rparr>"
    using r v1(1) l by (simp add: vector_insert_def split: if_splits)
  then show ?thesis
    using v1(2,3,4) us by (simp add: vector_inv_def word_le_nat_alt word_less_nat_alt)
qed

text \<open>Beyond \<open>2 ^ 60\<close> a reservation that has to grow the array does not return a
  vector: it leaves the block granted for 0 bytes, or never returns.\<close>

lemma vector_reserve_beyond:
  assumes "capacity v < n" "2 ^ 60 < unat n"
  shows "vector_reserve v n = None \<or> vector_reserve v n = Some (Inl OutOfBounds)"
proof (cases "unat n \<le> 2 ^ 63")
  case True
  with assms show ?thesis by (simp add: vector_reserve_wrap)
next
  case False
  then have "get_new_capacity n = None" by (intro get_new_capacity_None) simp
  moreover have "\<not> n \<le> capacity v" using assms(1) by simp
  ultimately show ?thesis by (simp add: vector_reserve_def)
qed

lemma full_at_limit:
  assumes inv: "vector_inv v"
    and big: "\<not> (size_v v < capacity v \<or> unat (size_v v) < 2 ^ 60)"
  shows "size_v v = capacity v"
    and "vector_reserve v (capacity v + 1) = None \<or>
         vector_reserve v (capacity v + 1) = Some (Inl OutOfBounds)"
proof -
  have "size_v v \<le> capacity v" using inv by (simp add: vector_inv_def)
  then show full: "size_v v = capacity v" using big by simp
  have u: "unat (capacity v + 1) = Suc (unat (capacity v))"
    using vector_inv_size_Suc[OF inv] full by simp
  then have "capacity v < capacity v + 1" by (simp add: word_less_nat_alt)
  moreover have "2 ^ 60 < unat (capacity v + 1)" using u big full by simp
  ultimately show "vector_reserve v (capacity v + 1) = None \<or>
         vector_reserve v (capacity v + 1) = Some (Inl OutOfBounds)"
    by (rule vector_reserve_beyond)
qed

lemma apply_op_preserves_inv:
  assumes inv: "vector_inv v" and r: "apply_op v op = Some (Inr v')"
  shows "vector_inv v'"
proof (cases op)
  case (PushBack x)
  show ?thesis
  proof (cases "size_v v < capacity v \<or> unat (size_v v) < 2 ^ 60")
    case True
    from vector_push_back_ok[OF inv True, of x] r PushBack show ?thesis by auto
  next
    case False
    from full_at_limit[OF inv False] r PushBack show ?thesis
      by (auto simp: vector_push_back_def)
  qed
next
  case PopBack
  show ?thesis
  proof (cases "size_v v = 0")
    case True
    from vector_pop_back_empty[OF inv True] r PopBack show ?thesis by simp
  next
    case False
    then have ne: "0 < size_v v" by (simp add: word_greater_zero_iff)
    have "unat (size_v v - 1) \<le> unat (size_v v)"
      using False by (simp add: unat_minus_one)
    then show ?thesis
      using vector_pop_back_nonempty[OF inv ne] r PopBack inv
      by (auto simp: vector_inv_def word_le_nat_alt)
  qed
next
  case (Insert p x)
  show ?thesis
  proof (cases "size_v v < capacity v \<or> unat (size_v v) < 2 ^ 60")
    case False
    from full_at_limit[OF inv False] r Insert show ?thesis
      by (auto simp: vector_insert_def)
  next
    case True
    consider "p = 0" | "0 < p" "p \<le> size_v v" | "size_v v < p"
      by (metis not_le word_greater_zero_iff)
    then show ?thesis
    proof cases
      case 1
      then show ?thesis using vector_insert_front[OF inv True, of x] r Insert by simp
    next
      case 2
      from vector_insert_ok[OF inv True 2, of x] r Insert show ?thesis by auto
    next
      case 3
      from vector_insert_beyond[OF inv True 3] r Insert show ?thesis by simp
    qed
  qed
next
  case (Erase p)
  consider "size_v v \<le> p" | "p < size_v v" "size_v v = capacity v"
    | "p < size_v v" "size_v v < capacity v"
    using inv by (fastforce simp: vector_inv_def)
  then show ?thesis
  proof cases
    case 1
    then show ?thesis using vector_erase_noop[OF 1] r Erase inv by simp
  next
    case 2
    then show ?thesis using vector_erase_full[OF inv 2] r Erase by simp
  next
    case 3
    from vector_erase_room[OF inv 3] r Erase show ?thesis by auto
  qed
next
  case (Set p x)
  consider "size_v v < p" | "p < size_v v" | "p = size_v v" "size_v v < capacity v"
    | "p = size_v v" "size_v v = capacity v"
    using inv by (fastforce simp: vector_inv_def)
  then show ?thesis
  proof cases
    case 1
    then show ?thesis using vector_set_beyond[OF 1, of x] r Set inv by simp
  next
    case 2
    then show ?thesis
      using vector_set_overwrite[OF inv 2, of x] r Set inv by (auto simp: vector_inv_def)
  next
    case 3
    have "unat (size_v v + 1) = Suc (unat (size_v v))" using 3(2) by (rule unat_Suc_less)
    then show ?thesis
      using vector_set_append[OF inv 3(2), of x] r Set inv 3
      by (auto simp: vector_inv_def word_le_nat_alt word_less_nat_alt)
  next
    case 4
    then show ?thesis using vector_set_full[OF inv 4(2), of x] r Set by simp
  qed
next
  case (Resize n)
  show ?thesis
  proof (cases "n \<le> capacity v \<or> unat n \<le> 2 ^ 60")
    case True
    from vector_resize_ok[OF inv True] r Resize show ?thesis by auto
  next
    case False
    then have "capacity v < n" "2 ^ 60 < unat n" by (simp_all add: not_le)
    from vector_reserve_beyond[OF this] \<open>capacity v < n\<close> r Resize show ?thesis
      by (auto simp: vector_resize_def)
  qed
next
  case (Reserve n)
  show ?thesis
  proof (cases "n \<le> capacity v \<or> unat n \<le> 2 ^ 60")
    case True
    from vector_reserve_ok[OF inv True] r Reserve show ?thesis by auto
  next
    case False
    then have "capacity v < n" "2 ^ 60 < unat n" by (simp_all add: not_le)
    from vector_reserve_beyond[OF this] r Reserve show ?thesis by auto
  qed
next
  case Clear
  then show ?thesis
    using vector_clear_ok[OF inv] r inv by (auto simp: vector_inv_def word_le_nat_alt)
qed

lemma run_preserves_inv:
  "vector_inv v \<Longrightarrow> run v ops = Some (Inr v') \<Longrightarrow> vector_inv v'"
proof (induction ops arbitrary: v)
  case Nil
  then show ?case by simp
next
  case (Cons op ops)
  from Cons.prems(2) obtain v1 where
    v1: "apply_op v op = Some (Inr v1)" "run v1 ops = Some (Inr v')"
    by (auto split: option.splits sum.splits)
  from apply_op_preserves_inv[OF Cons.prems(1) v1(1)] have "vector_inv v1" .
  then show ?case using v1(2) by (rule Cons.IH)
qed

lemma run_new_inv:
  "run_new copy dflt junk ops = Some (Inr v) \<Longrightarrow> vector_inv v"
proof -
  assume r: "run_new copy dflt junk ops = Some (Inr v)"
  from vector_inv_create[of copy dflt junk] obtain v0 where
    v0: "vector_create copy dflt junk = Inr v0" "vector_inv v0" by blast
  then have "run v0 ops = Some (Inr v)" using r by (simp add: run_new_def)
  with v0(2) show ?thesis by (rule run_preserves_inv)
qed

section \<open>Where the code leaves the allocated slots\<close>

text \<open>
  C1. The claim: after every operation the capacity is a power of two and at least the
  size. The code at the input that breaks it: eight \<^verbatim>\<open>vector_push_back\<close> calls fill a fresh
  vector (size 8, capacity 8, 8 slots); \<^verbatim>\<open>vector_set(v, 8, x)\<close> then takes the append
  branch, where \<^verbatim>\<open>vector_resize(v, 8)\<close> does not grow the array, and writes slot 8 of 8
  slots. Where the memory after the array takes the write (modelled by one more allocated
  slot), the call returns with size 9 and capacity 8.
\<close>

theorem set_breaks_capacity_bound:
  "(case run_new (\<lambda>x::nat. x) (\<lambda>_. None) None
           [PushBack (Some 1), PushBack (Some 2), PushBack (Some 3), PushBack (Some 4),
            PushBack (Some 5), PushBack (Some 6), PushBack (Some 7), PushBack (Some 8)] of
      Some (Inr v) \<Rightarrow>
        vector_size v = 8 \<and> vector_capacity v = 8 \<and> length (array v) = 8 \<and>
        outcome (run v [Set 8 (Some 9)]) = Some (Inl OutOfBounds) \<and>
        outcome (run (v\<lparr>array := array v @ [None]\<rparr>) [Set 8 (Some 9)]) =
          Some (Inr ([Some 1, Some 2, Some 3, Some 4, Some 5, Some 6, Some 7, Some 8, Some 9],
                     9, 8, []))
    | _ \<Rightarrow> False)"
  by code_simp

text \<open>
  C4. The claim covers \<^verbatim>\<open>position == 0\<close>. There the loop
  \<^verbatim>\<open>for (i = size; i >= position; i--)\<close> cannot end by its test, and at \<^verbatim>\<open>i == 0\<close> it reads
  \<^verbatim>\<open>array[i-1]\<close>, the slot before the array. At \<^verbatim>\<open>position == 1\<close> the same vector takes the
  new element as claimed.
\<close>

theorem insert_front_out_of_bounds:
  "outcome (run_new (\<lambda>x::nat. x) (\<lambda>_. None) None
     [PushBack (Some 1), PushBack (Some 2)]) =
     Some (Inr ([Some 1, Some 2, None, None, None, None, None, None], 2, 8, [])) \<and>
   outcome (run_new (\<lambda>x::nat. x) (\<lambda>_. None) None
     [PushBack (Some 1), PushBack (Some 2), Insert 0 (Some 3)]) = Some (Inl OutOfBounds) \<and>
   outcome (run_new (\<lambda>x::nat. x) (\<lambda>_. None) None
     [PushBack (Some 1), PushBack (Some 2), Insert 1 (Some 3)]) =
     Some (Inr ([Some 1, Some 3, Some 2, None, None, None, None, None], 3, 8, []))"
  by (simp add: run_new_def vector_create_eq replicate_8 vector_push_back_def
      vector_insert_def insert_loop.simps unat_minus_1_size_t copy_of_def
      outcome_def result_of_def observe_def)

text \<open>
  C5. The claim: \<^verbatim>\<open>vector_set\<close> at \<^verbatim>\<open>position == size == capacity\<close> grows the capacity and
  appends. The code: \<^verbatim>\<open>vector_resize(v, position)\<close> leaves a full vector as it is, and the
  write that follows is to the slot after the array.
\<close>

theorem set_at_capacity_does_not_grow:
  "(case run_new (\<lambda>x::nat. x) (\<lambda>_. None) None
           [PushBack (Some 1), PushBack (Some 2), PushBack (Some 3), PushBack (Some 4),
            PushBack (Some 5), PushBack (Some 6), PushBack (Some 7), PushBack (Some 8)] of
      Some (Inr v) \<Rightarrow>
        vector_size v = 8 \<and> vector_capacity v = 8 \<and>
        outcome (vector_resize v 8) = Some (Inr (observe v)) \<and>
        outcome (vector_set v 8 (Some 9)) = Some (Inl OutOfBounds)
    | _ \<Rightarrow> False)"
  by code_simp

text \<open>
  C8. The claim: \<^verbatim>\<open>vector_erase\<close> at \<^verbatim>\<open>position < size\<close> shifts the later elements down
  and decrements the size. The code on a full vector: the shifting loop leaves the array
  (see C10) before the size is decremented. On a vector with a free slot the call does
  what is claimed.
\<close>

theorem erase_full_out_of_bounds:
  "(case run_new (\<lambda>x::nat. x) (\<lambda>_. None) None
           [PushBack (Some 1), PushBack (Some 2), PushBack (Some 3), PushBack (Some 4),
            PushBack (Some 5), PushBack (Some 6), PushBack (Some 7), PushBack (Some 8)] of
      Some (Inr v) \<Rightarrow>
        vector_size v = 8 \<and> vector_capacity v = 8 \<and>
        result_of (vector_erase v 0) = Inl OutOfBounds
    | _ \<Rightarrow> False) \<and>
   outcome (run_new (\<lambda>x::nat. x) (\<lambda>_. None) None
     [PushBack (Some 1), PushBack (Some 2), PushBack (Some 3), Erase 0]) =
     Some (Inr ([Some 2, Some 3, None, None, None, None, None, None], 2, 8, [Some 1]))"
  by code_simp

text \<open>
  C10. The claim: the loop of \<^verbatim>\<open>vector_erase\<close> reads and writes only slots below the
  capacity. The code on a full vector with 8 slots, at \<^verbatim>\<open>position == 7\<close>: the iteration
  \<^verbatim>\<open>i == 7\<close> reads \<^verbatim>\<open>array[i+1]\<close>, slot 8. With one more slot allocated the same loop
  returns.
\<close>

theorem erase_loop_reads_slot_at_capacity:
  "(case run_new (\<lambda>x::nat. x) (\<lambda>_. None) None
           [PushBack (Some 1), PushBack (Some 2), PushBack (Some 3), PushBack (Some 4),
            PushBack (Some 5), PushBack (Some 6), PushBack (Some 7), PushBack (Some 8)] of
      Some (Inr v) \<Rightarrow>
        (7::size_t) < vector_size v \<and> (7::size_t) + 1 = vector_capacity v \<and>
        length (array v) = unat (vector_capacity v) \<and>
        result_of (erase_loop v 7) = Inl OutOfBounds \<and>
        result_of (erase_loop (v\<lparr>array := array v @ [None]\<rparr>) 7) =
          Inr ([Some 1, Some 2, Some 3, Some 4, Some 5, Some 6, Some 7, None, None], 8, 8, [])
    | _ \<Rightarrow> False)"
  by code_simp

end
